theory Spec2Isabelle
  imports Main "HOL-Library.AList"
begin

section \<open>Source text and character codes\<close>

text \<open>
  A JavaScript string is a sequence of UTF-16 code units; the scanner reads it with
  \<open>charCodeAt\<close> (a code unit, or NaN past the end) and \<open>codePointAt\<close> (a code point,
  or undefined past the end). Code units are natural numbers here, and NaN/undefined is
  \<open>None\<close>: a comparison \<open>text.charCodeAt(i) === c\<close> is \<open>charCodeAt src i = Some c\<close>.
\<close>

definition charCodeAt :: "nat list \<Rightarrow> nat \<Rightarrow> nat option" where
  "charCodeAt src i = (if i < length src then Some (src ! i) else None)"

definition codePointAt :: "nat list \<Rightarrow> nat \<Rightarrow> nat option" where
  "codePointAt src i =
     (if i < length src then
        (let first = src ! i in
         if 0xD800 \<le> first \<and> first \<le> 0xDBFF \<and> i + 1 < length src
            \<and> 0xDC00 \<le> src ! (i + 1) \<and> src ! (i + 1) \<le> 0xDFFF
         then Some ((first - 0xD800) * 0x400 + (src ! (i + 1) - 0xDC00) + 0x10000)
         else Some first)
      else None)"

lemma codePointAt_ascii:
  "codePointAt src pos = Some c \<Longrightarrow> c < 0x10000 \<Longrightarrow> charCodeAt src pos = Some c"
  by (auto simp: codePointAt_def charCodeAt_def Let_def split: if_splits)

text \<open>A string literal of the examples, as its code units.\<close>

definition js :: "string \<Rightarrow> nat list" where
  "js s = map of_char s"

text \<open>
  The members of the enum \<open>CharacterCodes\<close> that the comment scanner names. The enum is
  declared in the compiler's \<open>types.ts\<close>; each member is the Unicode code point of the
  character it is named after.
\<close>

abbreviation (input) lineFeed :: nat where "lineFeed \<equiv> 0x0A"
abbreviation (input) carriageReturn :: nat where "carriageReturn \<equiv> 0x0D"
abbreviation (input) lineSeparator :: nat where "lineSeparator \<equiv> 0x2028"
abbreviation (input) paragraphSeparator :: nat where "paragraphSeparator \<equiv> 0x2029"
abbreviation (input) tab :: nat where "tab \<equiv> 0x09"
abbreviation (input) verticalTab :: nat where "verticalTab \<equiv> 0x0B"
abbreviation (input) formFeed :: nat where "formFeed \<equiv> 0x0C"
abbreviation (input) space :: nat where "space \<equiv> 0x20"
abbreviation (input) nonBreakingSpace :: nat where "nonBreakingSpace \<equiv> 0xA0"
abbreviation (input) ogham :: nat where "ogham \<equiv> 0x1680"
abbreviation (input) enQuad :: nat where "enQuad \<equiv> 0x2000"
abbreviation (input) emQuad :: nat where "emQuad \<equiv> 0x2001"
abbreviation (input) enSpace :: nat where "enSpace \<equiv> 0x2002"
abbreviation (input) emSpace :: nat where "emSpace \<equiv> 0x2003"
abbreviation (input) threePerEmSpace :: nat where "threePerEmSpace \<equiv> 0x2004"
abbreviation (input) fourPerEmSpace :: nat where "fourPerEmSpace \<equiv> 0x2005"
abbreviation (input) sixPerEmSpace :: nat where "sixPerEmSpace \<equiv> 0x2006"
abbreviation (input) figureSpace :: nat where "figureSpace \<equiv> 0x2007"
abbreviation (input) punctuationSpace :: nat where "punctuationSpace \<equiv> 0x2008"
abbreviation (input) thinSpace :: nat where "thinSpace \<equiv> 0x2009"
abbreviation (input) hairSpace :: nat where "hairSpace \<equiv> 0x200A"
abbreviation (input) zeroWidthSpace :: nat where "zeroWidthSpace \<equiv> 0x200B"
abbreviation (input) narrowNoBreakSpace :: nat where "narrowNoBreakSpace \<equiv> 0x202F"
abbreviation (input) mathematicalSpace :: nat where "mathematicalSpace \<equiv> 0x205F"
abbreviation (input) ideographicSpace :: nat where "ideographicSpace \<equiv> 0x3000"
abbreviation (input) byteOrderMark :: nat where "byteOrderMark \<equiv> 0xFEFF"
abbreviation (input) exclamation :: nat where "exclamation \<equiv> 0x21"
abbreviation (input) hash :: nat where "hash \<equiv> 0x23"
abbreviation (input) asterisk :: nat where "asterisk \<equiv> 0x2A"
abbreviation (input) slash :: nat where "slash \<equiv> 0x2F"
abbreviation (input) colon :: nat where "colon \<equiv> 0x3A"

text \<open>\<open>isLineBreak(ch)\<close>; NaN is no line break.\<close>

definition isLineBreak :: "nat option \<Rightarrow> bool" where
  "isLineBreak ch \<longleftrightarrow>
     ch = Some lineFeed \<or> ch = Some carriageReturn
     \<or> ch = Some lineSeparator \<or> ch = Some paragraphSeparator"

text \<open>
  The second group of case labels of \<open>commentScan\<close>'s switch
  (\<open>tab\<close> ... \<open>byteOrderMark\<close>), each of which is skipped.
\<close>

definition isWhiteSpaceCase :: "nat \<Rightarrow> bool" where
  "isWhiteSpaceCase ch \<longleftrightarrow>
     ch \<in> set [tab, verticalTab, formFeed, space, nonBreakingSpace, ogham, enQuad, emQuad,
               enSpace, emSpace, threePerEmSpace, fourPerEmSpace, sixPerEmSpace, figureSpace,
               punctuationSpace, thinSpace, hairSpace, zeroWidthSpace, narrowNoBreakSpace,
               mathematicalSpace, ideographicSpace, byteOrderMark]"

text \<open>
  \<open>shebangTriviaRegex = /^#!.*/\<close>: the text starts with \<open>#!\<close>, and the match runs up
  to the first line terminator (\<open>.\<close> matches any code unit but LF, CR, LS and PS).
  \<open>isShebangTrivia\<close> is only ever called at position 0 (it asserts so).
\<close>

definition isShebangTrivia :: "nat list \<Rightarrow> nat \<Rightarrow> bool" where
  "isShebangTrivia src pos \<longleftrightarrow> take 2 src = [hash, exclamation]"

definition scanShebangTrivia :: "nat list \<Rightarrow> nat \<Rightarrow> nat" where
  "scanShebangTrivia src pos =
     pos + (2 + length (takeWhile (\<lambda>c. \<not> isLineBreak (Some c)) (drop 2 src)))"

section \<open>The delimiter classifier \<open>commentScan\<close>\<close>

datatype BlockCommentDelimiterType =
    OpenNonTsComment
  | OpenTsCommentWithoutColons
  | SingleColonForOpenTsComment
  | DoubleColonForOpenTsComment
  | Close

text \<open>
  The only exception \<open>commentScan\<close> can raise: \<open>Debug.assertLessThan(pos, end)\<close> after a
  shebang line. \<open>Debug\<close> is the compiler's assertion module (\<open>debug.ts\<close>);
  \<open>assertLessThan(a, b)\<close> throws unless \<open>a < b\<close>.
\<close>

datatype error = AssertionFailed

text \<open>The loop that skips a single-line comment: up to a line break or \<open>end\<close>.\<close>

function lineCommentEnd :: "nat list \<Rightarrow> nat \<Rightarrow> nat \<Rightarrow> nat" where
  "lineCommentEnd src pos endPos =
     (if pos < endPos then
        (if isLineBreak (charCodeAt src pos) then pos
         else lineCommentEnd src (pos + 1) endPos)
      else pos)"
  by pat_completeness auto
termination
  by (relation "measure (\<lambda>(src, pos, endPos). endPos - pos)") auto

text \<open>
  The loop after \<open>/*\<close> that skips spaces and looks for a colon; the result is the
  position it stopped at and the flag \<open>isTsComment\<close>.
\<close>

function tsMarkerScan :: "nat list \<Rightarrow> nat \<Rightarrow> nat \<Rightarrow> nat \<times> bool" where
  "tsMarkerScan src pos endPos =
     (if pos < endPos then
        (if charCodeAt src pos = Some space then tsMarkerScan src (pos + 1) endPos
         else if charCodeAt src pos = Some colon then (pos, True)
         else (pos, False))
      else (pos, False))"
  by pat_completeness auto
termination
  by (relation "measure (\<lambda>(src, pos, endPos). endPos - pos)") auto

definition colonCountAt :: "nat list \<Rightarrow> nat \<Rightarrow> nat" where
  "colonCountAt src pos =
     (if charCodeAt src (pos + 1) \<noteq> Some colon then 1
      else if charCodeAt src (pos + 2) \<noteq> Some colon then 2
      else 3)"

text \<open>
  The loop that runs through the body of an ordinary block comment: the position after
  it, and the offset of the closing \<open>*/\<close> when one was found before \<open>end\<close>.
\<close>

function blockCommentEnd :: "nat list \<Rightarrow> nat \<Rightarrow> nat \<Rightarrow> nat \<times> nat option" where
  "blockCommentEnd src pos endPos =
     (if pos < endPos then
        (if charCodeAt src pos = Some asterisk \<and> charCodeAt src (pos + 1) = Some slash
         then (pos + 2, Some pos)
         else blockCommentEnd src (pos + 1) endPos)
      else (pos, None))"
  by pat_completeness auto
termination
  by (relation "measure (\<lambda>(src, pos, endPos). endPos - pos)") auto

text \<open>
  One iteration of \<open>commentScan\<close>'s \<open>while (true)\<close>: it returns, or raises, or continues
  at a new position after calling \<open>onCommentDelimiter\<close> on the listed events, in order.
  The callback has no influence on the scan, so the scan is modelled as producing the
  list of its calls and each caller applies its own callback to them.
\<close>

datatype scanStep =
    Return nat
  | Continue nat "(nat \<times> BlockCommentDelimiterType) list"
  | Throw

definition blockCommentStep :: "nat list \<Rightarrow> nat \<Rightarrow> nat \<Rightarrow> scanStep" where
  "blockCommentStep src saveStartPos endPos =
     (let (pos, isTsComment) = tsMarkerScan src (saveStartPos + 2) endPos in
      if isTsComment \<and> (colonCountAt src pos = 1 \<or> colonCountAt src pos = 2) then
        Continue (pos + colonCountAt src pos)
          [(saveStartPos, OpenTsCommentWithoutColons),
           (pos, if colonCountAt src pos = 1 then SingleColonForOpenTsComment
                 else DoubleColonForOpenTsComment)]
      else
        (let pos1 = (if isTsComment then pos + 3 else pos);
             (pos2, closed) = blockCommentEnd src pos1 endPos
         in Continue pos2
              ((saveStartPos, OpenNonTsComment) #
               (case closed of None \<Rightarrow> [] | Some at \<Rightarrow> [(at, Close)]))))"

definition commentScanStep :: "nat list \<Rightarrow> nat \<Rightarrow> nat \<Rightarrow> bool \<Rightarrow> scanStep" where
  "commentScanStep src pos endPos stopOnSignificantText =
     (let ch = codePointAt src pos in
      if pos \<ge> endPos then Return pos
      else if pos = 0 \<and> ch = Some hash \<and> isShebangTrivia src pos then
        (let pos' = scanShebangTrivia src pos in
         if pos' < endPos then Continue pos' [] else Throw)
      else if ch = Some lineFeed \<or> ch = Some carriageReturn then Continue (pos + 1) []
      else if (case ch of None \<Rightarrow> False | Some c \<Rightarrow> isWhiteSpaceCase c) then
        Continue (pos + 1) []
      else if ch = Some asterisk then
        (if charCodeAt src (pos + 1) = Some slash then Continue (pos + 2) [(pos, Close)]
         else Continue (pos + 1) [])
      else if ch = Some slash then
        (if charCodeAt src (pos + 1) = Some slash then
           Continue (lineCommentEnd src (pos + 2) endPos) []
         else if charCodeAt src (pos + 1) = Some asterisk then
           blockCommentStep src pos endPos
         else Continue (pos + 1) [])
      else if stopOnSignificantText then Return pos
      else Continue (pos + 1) [])"

lemma lineCommentEnd_ge: "pos \<le> lineCommentEnd src pos endPos"
proof (induction src pos endPos rule: lineCommentEnd.induct)
  case (1 src pos endPos)
  then show ?case
    by (subst lineCommentEnd.simps) (auto simp del: lineCommentEnd.simps)
qed

lemma tsMarkerScan_ge: "pos \<le> fst (tsMarkerScan src pos endPos)"
proof (induction src pos endPos rule: tsMarkerScan.induct)
  case (1 src pos endPos)
  then show ?case
    by (subst tsMarkerScan.simps) (auto simp del: tsMarkerScan.simps)
qed

lemma blockCommentEnd_ge: "pos \<le> fst (blockCommentEnd src pos endPos)"
proof (induction src pos endPos rule: blockCommentEnd.induct)
  case (1 src pos endPos)
  then show ?case
    by (subst blockCommentEnd.simps) (auto simp del: blockCommentEnd.simps)
qed

lemma blockCommentStep_progress:
  "blockCommentStep src pos endPos = Continue p es \<Longrightarrow> pos + 2 \<le> p"
proof -
  assume a: "blockCommentStep src pos endPos = Continue p es"
  obtain q b where q: "tsMarkerScan src (pos + 2) endPos = (q, b)"
    by (cases "tsMarkerScan src (pos + 2) endPos")
  have qge: "pos + 2 \<le> q"
    using tsMarkerScan_ge [of "pos + 2" src endPos] q by simp
  obtain r c where r: "blockCommentEnd src (if b then q + 3 else q) endPos = (r, c)"
    by (cases "blockCommentEnd src (if b then q + 3 else q) endPos")
  have rge: "q \<le> r"
    using blockCommentEnd_ge [of "if b then q + 3 else q" src endPos] r
    by (simp split: if_splits)
  show ?thesis
    using a q r qge rge
    by (auto simp: blockCommentStep_def Let_def split: if_splits)
qed

lemma commentScanStep_progress:
  "commentScanStep src pos endPos stop = Continue p es \<Longrightarrow> pos < p \<and> pos < endPos"
proof -
  assume a: "commentScanStep src pos endPos stop = Continue p es"
  have lt: "pos < endPos"
    using a by (auto simp: commentScanStep_def Let_def split: if_splits)
  have b: "blockCommentStep src pos endPos = Continue p es \<Longrightarrow> pos < p"
    using blockCommentStep_progress [of src pos endPos p es] by simp
  have l: "pos < lineCommentEnd src (pos + 2) endPos"
    using lineCommentEnd_ge [of "pos + 2" src endPos] by simp
  have "pos < p"
    using a b l
    by (simp add: commentScanStep_def Let_def scanShebangTrivia_def split: if_splits)
  with lt show ?thesis by simp
qed

text \<open>
  \<open>commentScan(text, start, end, stopOnSignificantText, onCommentDelimiter?)\<close>: the
  offset where scanning stopped, with the delimiter events in the order of the calls of
  the callback; or the assertion failure.
\<close>

function commentScan ::
  "nat list \<Rightarrow> nat \<Rightarrow> nat \<Rightarrow> bool \<Rightarrow> error + nat \<times> (nat \<times> BlockCommentDelimiterType) list" where
  "commentScan src pos endPos stopOnSignificantText =
     (case commentScanStep src pos endPos stopOnSignificantText of
        Return p \<Rightarrow> Inr (p, [])
      | Throw \<Rightarrow> Inl AssertionFailed
      | Continue p es \<Rightarrow>
          (case commentScan src p endPos stopOnSignificantText of
             Inl err \<Rightarrow> Inl err
           | Inr (q, rest) \<Rightarrow> Inr (q, es @ rest)))"
  by pat_completeness auto
termination
  by (relation "measure (\<lambda>(src, pos, endPos, stop). endPos - pos)")
     (auto dest!: commentScanStep_progress)

declare commentScan.simps [simp del]
declare lineCommentEnd.simps [simp del]
declare tsMarkerScan.simps [simp del]
declare blockCommentEnd.simps [simp del]


section \<open>The comment-span cursor \<open>createTSCommentScanner\<close>\<close>

datatype TsCommentScannerState = NotInComment | InBlockComment | InTSBlockComment

text \<open>
  \<open>BlockCommentDelimiterPositions = Map<number, BlockCommentDelimiterType>\<close>. A JavaScript
  Map keeps its entries in insertion order and \<open>set\<close> on a key that is present replaces
  the value in place: an association list under \<open>AList.update\<close>.

  Maps are objects, shared by reference between the closures that hold them. The store
  gives the contents of every Map allocated so far; \<open>new Map()\<close> takes the next free
  reference.
\<close>

type_synonym BlockCommentDelimiterPositions = "(nat \<times> BlockCommentDelimiterType) list"

record store =
  cells :: "nat \<Rightarrow> BlockCommentDelimiterPositions"
  nextRef :: nat

definition emptyStore :: store where
  "emptyStore = \<lparr>cells = (\<lambda>r. []), nextRef = 0\<rparr>"

text \<open>
  The variables one scanner object closes over: the \<open>text\<close>, \<open>pos\<close>, \<open>state\<close>, the
  local constant \<open>delimiterPositions\<close> (a reference) and the parameter
  \<open>_delimiterPositions\<close> (a reference, or undefined).
\<close>

record TsCommentScanner =
  scannerText :: "nat list"
  scannerPos :: nat
  scannerState :: TsCommentScannerState
  delimiterPositions :: nat
  delimiterPositionsParam :: "nat option"

text \<open>
  \<open>createTSCommentScanner({ text }, _pos?, _state?, _delimiterPositions?)\<close>:
  \<open>pos = _pos ?? 0\<close>, \<open>state = _state ?? notInComment\<close>,
  \<open>delimiterPositions = _delimiterPositions ?? new Map()\<close>.
\<close>

definition createTSCommentScanner ::
  "nat list \<Rightarrow> nat option \<Rightarrow> TsCommentScannerState option \<Rightarrow> nat option \<Rightarrow> store
   \<Rightarrow> TsCommentScanner \<times> store" where
  "createTSCommentScanner src pos0 state0 delimiterPositions0 st =
     (let p = (case pos0 of None \<Rightarrow> 0 | Some p \<Rightarrow> p);
          s = (case state0 of None \<Rightarrow> NotInComment | Some s \<Rightarrow> s)
      in case delimiterPositions0 of
           Some r \<Rightarrow>
             (\<lparr>scannerText = src, scannerPos = p, scannerState = s,
               delimiterPositions = r, delimiterPositionsParam = Some r\<rparr>, st)
         | None \<Rightarrow>
             (\<lparr>scannerText = src, scannerPos = p, scannerState = s,
               delimiterPositions = nextRef st, delimiterPositionsParam = None\<rparr>,
              \<lparr>cells = (cells st)(nextRef st := []), nextRef = nextRef st + 1\<rparr>))"

definition getCurrentPos :: "TsCommentScanner \<times> store \<Rightarrow> nat" where
  "getCurrentPos cs = scannerPos (fst cs)"

text \<open>\<open>clone()\<close> passes the parameter \<open>_delimiterPositions\<close> on, as the source does.\<close>

definition clone :: "TsCommentScanner \<times> store \<Rightarrow> TsCommentScanner \<times> store" where
  "clone cs =
     createTSCommentScanner (scannerText (fst cs)) (Some (scannerPos (fst cs)))
       (Some (scannerState (fst cs))) (delimiterPositionsParam (fst cs)) (snd cs)"

fun onCommentDelimiter ::
  "nat \<times> BlockCommentDelimiterType \<Rightarrow> TsCommentScanner \<times> store \<Rightarrow> TsCommentScanner \<times> store" where
  "onCommentDelimiter (at, commentDelimiterType) (c, st) =
     (let st' = st\<lparr>cells := (cells st)(delimiterPositions c :=
                   AList.update at commentDelimiterType (cells st (delimiterPositions c)))\<rparr>
      in if commentDelimiterType = Close then (c\<lparr>scannerState := NotInComment\<rparr>, st')
         else if commentDelimiterType = OpenTsCommentWithoutColons then
           (c\<lparr>scannerState := InTSBlockComment\<rparr>, st')
         else if commentDelimiterType = OpenNonTsComment then
           (c\<lparr>scannerState := InBlockComment\<rparr>, st')
         else (c, st'))"

text \<open>
  \<open>scanThroughLeafNode(node)\<close>; of the node only \<open>node.pos\<close> and \<open>node.end\<close> are read.
\<close>

definition scanThroughLeafNode ::
  "nat \<Rightarrow> nat \<Rightarrow> TsCommentScanner \<times> store \<Rightarrow> error + bool \<times> TsCommentScanner \<times> store" where
  "scanThroughLeafNode nodePos nodeEnd cs =
     (if nodeEnd < scannerPos (fst cs) then Inr (False, cs)
      else
        (case commentScan (scannerText (fst cs)) (scannerPos (fst cs)) nodePos False of
           Inl err \<Rightarrow> Inl err
         | Inr (p1, es1) \<Rightarrow>
             (let cs1 = fold onCommentDelimiter es1 cs in
              case commentScan (scannerText (fst cs)) nodePos nodeEnd True of
                Inl err \<Rightarrow> Inl err
              | Inr (p2, es2) \<Rightarrow>
                  (let (c2, st2) = fold onCommentDelimiter es2 cs1 in
                   Inr (scannerState c2 = InTSBlockComment,
                        c2\<lparr>scannerPos := nodeEnd\<rparr>, st2)))))"

text \<open>
  \<open>scanTo(end)\<close>. The callback of the second scan clears \<open>allInTSComment\<close> and then
  calls \<open>onCommentDelimiter\<close>.
\<close>

definition scanTo ::
  "nat \<Rightarrow> TsCommentScanner \<times> store \<Rightarrow> error + bool \<times> TsCommentScanner \<times> store" where
  "scanTo endPos cs =
     (if endPos < scannerPos (fst cs) then Inr (False, cs)
      else
        (case commentScan (scannerText (fst cs)) (scannerPos (fst cs)) endPos True of
           Inl err \<Rightarrow> Inl err
         | Inr (significantTextAt, es1) \<Rightarrow>
             (let cs1 = fold onCommentDelimiter es1 cs;
                  allInTSComment = (scannerState (fst cs1) = InTSBlockComment)
              in case commentScan (scannerText (fst cs)) significantTextAt endPos False of
                   Inl err \<Rightarrow> Inl err
                 | Inr (p2, es2) \<Rightarrow>
                     (let (allInTSComment', c2, st2) =
                            fold (\<lambda>ev (b, cs'). (False, onCommentDelimiter ev cs')) es2
                              (allInTSComment, cs1)
                      in Inr (allInTSComment', c2\<lparr>scannerPos := endPos\<rparr>, st2)))))"

text \<open>\<open>scanUntilNextSignificantChar(max)\<close>: the offset \<open>commentScan\<close> returns is not used.\<close>

definition scanUntilNextSignificantChar ::
  "nat \<Rightarrow> TsCommentScanner \<times> store \<Rightarrow> error + bool \<times> TsCommentScanner \<times> store" where
  "scanUntilNextSignificantChar maxPos cs =
     (if maxPos < scannerPos (fst cs) then Inr (False, cs)
      else
        (case commentScan (scannerText (fst cs)) (scannerPos (fst cs)) maxPos True of
           Inl err \<Rightarrow> Inl err
         | Inr (p1, es1) \<Rightarrow>
             (let cs1 = fold onCommentDelimiter es1 cs in
              Inr (scannerState (fst cs1) = InTSBlockComment, cs1))))"

text \<open>
  \<open>scanUntilAtChar(char, max)\<close> and \<open>scanUntilPastChar(char, max)\<close>. \<open>charList\<close> is
  the list of the one-character strings looked for, as code units; \<open>text[pos]\<close> is the
  code unit at \<open>pos\<close>, or undefined (which no list includes). Here too the offset
  \<open>commentScan\<close> returns is not used, and \<open>pos\<close> moves by one.
\<close>

function scanUntilAtChar ::
  "nat list \<Rightarrow> nat \<Rightarrow> TsCommentScanner \<times> store \<Rightarrow> error + TsCommentScanner \<times> store" where
  "scanUntilAtChar charList maxPos cs =
     (if scannerPos (fst cs) < maxPos then
        (case commentScan (scannerText (fst cs)) (scannerPos (fst cs)) maxPos True of
           Inl err \<Rightarrow> Inl err
         | Inr (p1, es1) \<Rightarrow>
             (let (c1, st1) = fold onCommentDelimiter es1 cs in
              if (case charCodeAt (scannerText (fst cs)) (scannerPos (fst cs)) of
                    None \<Rightarrow> False | Some ch \<Rightarrow> ch \<in> set charList)
              then Inr (c1, st1)
              else scanUntilAtChar charList maxPos
                     (c1\<lparr>scannerPos := scannerPos (fst cs) + 1\<rparr>, st1)))
      else Inr cs)"
  by pat_completeness auto
termination
  by (relation "measure (\<lambda>(charList, maxPos, cs). maxPos - scannerPos (fst cs))") auto

function scanUntilPastChar ::
  "nat list \<Rightarrow> nat \<Rightarrow> TsCommentScanner \<times> store \<Rightarrow> error + TsCommentScanner \<times> store" where
  "scanUntilPastChar charList maxPos cs =
     (if scannerPos (fst cs) < maxPos then
        (case commentScan (scannerText (fst cs)) (scannerPos (fst cs)) maxPos True of
           Inl err \<Rightarrow> Inl err
         | Inr (p1, es1) \<Rightarrow>
             (let (c1, st1) = fold onCommentDelimiter es1 cs in
              if (case charCodeAt (scannerText (fst cs)) (scannerPos (fst cs)) of
                    None \<Rightarrow> False | Some ch \<Rightarrow> ch \<in> set charList)
              then Inr (c1\<lparr>scannerPos := scannerPos (fst cs) + 1\<rparr>, st1)
              else scanUntilPastChar charList maxPos
                     (c1\<lparr>scannerPos := scannerPos (fst cs) + 1\<rparr>, st1)))
      else Inr cs)"
  by pat_completeness auto
termination
  by (relation "measure (\<lambda>(charList, maxPos, cs). maxPos - scannerPos (fst cs))") auto

declare scanUntilAtChar.simps [simp del]
declare scanUntilPastChar.simps [simp del]

definition getBlockCommentDelimiters ::
  "TsCommentScanner \<times> store \<Rightarrow> BlockCommentDelimiterPositions" where
  "getBlockCommentDelimiters cs = cells (snd cs) (delimiterPositions (fst cs))"

text \<open>
  \<open>TsCommentPosition\<close>, as the \<open>Partial<TsCommentPosition>\<close> that
  \<open>getTSCommentPositions\<close> fills in and then casts: a field not yet assigned is \<open>None\<close>.
\<close>

record TsCommentPosition =
  "open" :: "nat option"
  colonPos :: "nat option"
  close :: "nat option"
  colonCount :: "nat option"
  containedInnerOpeningBlockComment :: bool

definition newTsCommentPosition :: TsCommentPosition where
  "newTsCommentPosition =
     \<lparr>open = None, colonPos = None, close = None, colonCount = None,
      containedInnerOpeningBlockComment = False\<rparr>"

text \<open>
  The body of the \<open>for\<close> loop of \<open>getTSCommentPositions\<close>, on the triple
  \<open>(result, tsCommentPosition, inTSComment)\<close>.
\<close>

fun tsCommentPositionsStep ::
  "nat \<times> BlockCommentDelimiterType
   \<Rightarrow> TsCommentPosition list \<times> TsCommentPosition \<times> bool
   \<Rightarrow> TsCommentPosition list \<times> TsCommentPosition \<times> bool" where
  "tsCommentPositionsStep (p, ty) (result, tsCommentPosition, inTSComment) =
     (if \<not> inTSComment \<and> ty = OpenTsCommentWithoutColons then
        (result, tsCommentPosition\<lparr>open := Some p\<rparr>, True)
      else if inTSComment \<and> ty = SingleColonForOpenTsComment then
        (result, tsCommentPosition\<lparr>colonPos := Some p, colonCount := Some 1\<rparr>, inTSComment)
      else if inTSComment \<and> ty = DoubleColonForOpenTsComment then
        (result, tsCommentPosition\<lparr>colonPos := Some p, colonCount := Some 2\<rparr>, inTSComment)
      else if inTSComment \<and> ty = OpenNonTsComment then
        (result, tsCommentPosition\<lparr>containedInnerOpeningBlockComment := True\<rparr>, inTSComment)
      else if inTSComment \<and> ty = Close then
        (result @ [tsCommentPosition\<lparr>close := Some p\<rparr>], newTsCommentPosition, False)
      else (result, tsCommentPosition, inTSComment))"

definition getTSCommentPositions :: "TsCommentScanner \<times> store \<Rightarrow> TsCommentPosition list" where
  "getTSCommentPositions cs =
     (let delimiters = sort_key fst (cells (snd cs) (delimiterPositions (fst cs)))
      in fst (fold tsCommentPositionsStep delimiters ([], newTsCommentPosition, False)))"


text \<open>
  A sequence of calls of the scanning methods on one cursor, the values they return
  dropped, stopping at the first call that raises.
\<close>

datatype scannerCall =
    ScanThroughLeafNode nat nat
  | ScanTo nat
  | ScanUntilNextSignificantChar nat
  | ScanUntilAtChar "nat list" nat
  | ScanUntilPastChar "nat list" nat

fun callScanner ::
  "scannerCall \<Rightarrow> TsCommentScanner \<times> store \<Rightarrow> error + TsCommentScanner \<times> store" where
  "callScanner (ScanThroughLeafNode nodePos nodeEnd) cs =
     map_sum id snd (scanThroughLeafNode nodePos nodeEnd cs)"
| "callScanner (ScanTo endPos) cs = map_sum id snd (scanTo endPos cs)"
| "callScanner (ScanUntilNextSignificantChar maxPos) cs =
     map_sum id snd (scanUntilNextSignificantChar maxPos cs)"
| "callScanner (ScanUntilAtChar charList maxPos) cs = scanUntilAtChar charList maxPos cs"
| "callScanner (ScanUntilPastChar charList maxPos) cs = scanUntilPastChar charList maxPos cs"

fun callScannerAll ::
  "scannerCall list \<Rightarrow> TsCommentScanner \<times> store \<Rightarrow> error + TsCommentScanner \<times> store" where
  "callScannerAll [] cs = Inr cs"
| "callScannerAll (call # rest) cs =
     (case callScanner call cs of
        Inl err \<Rightarrow> Inl err
      | Inr cs' \<Rightarrow> callScannerAll rest cs')"

section \<open>The range classifier \<open>createTSSyntaxTracker\<close>\<close>












section \<open>The augmented token scanner\<close>

subsection \<open>The function \<open>skipTrivia\<close>\<close>



















subsection \<open>The function \<open>scan\<close>\<close>

text \<open>
  The token kinds returned by the part of \<open>scan\<close> that is embedded here (members of the
  enum \<open>SyntaxKind\<close>).
\<close>

datatype SyntaxKind =
    EndOfFileToken
  | NonTextFileMarkerTrivia
  | ShebangTrivia
  | NewLineTrivia
  | WhitespaceTrivia
  | SingleLineCommentTrivia
  | MultiLineCommentTrivia
  | ConflictMarkerTrivia
  | AsteriskEqualsToken
  | AsteriskAsteriskEqualsToken
  | AsteriskAsteriskToken
  | AsteriskToken
  | SlashEqualsToken
  | SlashToken
  | ColonToken

text \<open>
  \<open>scan\<close> is a switch on the current character with some hundred case labels. Embedded
  are the start of the loop (end of text, the checks at position 0), every path that
  ends in \<open>continue\<close> (line breaks, white space, comments, the marker comments, \<open>*/\<close>,
  the asterisk that decorates a JSDoc line, merge conflict markers, and the white space
  and line breaks of the default case), and the tokens of the asterisk, the slash and
  the colon. Where the source returns a token of any other kind (a literal, an
  identifier, another operator, \<open>Unknown\<close>), the result is \<open>NotEmbedded\<close> at the position
  where that token starts.
\<close>

datatype scanned = Token SyntaxKind | NotEmbedded

text \<open>
  The bits of \<open>tokenFlags\<close> that the embedded cases write, other than
  \<open>PrecedingJSDocComment\<close>, which depends on the parsing mode and is read by none of them.
  The diagnostics reported through \<open>error\<close> and the comment directives collected on the
  way are left out as well: they do not influence the scan.
\<close>

record TokenFlags =
  precedingLineBreak :: bool
  unterminated :: bool
  enteringTSComment :: bool





text \<open>
  One iteration of the \<open>while (true)\<close> of \<open>scan\<close>, for a scanner over \<open>text\<close> up to
  \<open>end\<close>, created with the option \<open>skipTrivia\<close> and with the counter \<open>inJSDocType\<close>: it
  returns a token, the new position and the flags, or continues with a new position,
  new flags and a new value of \<open>asteriskSeen\<close>.
\<close>

datatype scanIteration =
    ScanReturn scanned nat TokenFlags
  | ScanContinue nat TokenFlags bool

























section \<open>The delimiter events of one scan\<close>

lemma blockCommentEnd_Some:
  "blockCommentEnd src pos endPos = (p, Some at) \<Longrightarrow>
     pos \<le> at \<and> p = at + 2 \<and> at < endPos
     \<and> charCodeAt src at = Some asterisk \<and> charCodeAt src (at + 1) = Some slash"
proof (induction src pos endPos rule: blockCommentEnd.induct)
  case (1 src pos endPos)
  show ?case
  proof (cases "pos < endPos")
    case False
    with "1.prems" show ?thesis by (simp add: blockCommentEnd.simps)
  next
    case True
    show ?thesis
    proof (cases "charCodeAt src pos = Some asterisk \<and> charCodeAt src (pos + 1) = Some slash")
      case True
      with \<open>pos < endPos\<close> "1.prems" show ?thesis by (simp add: blockCommentEnd.simps)
    next
      case False
      with \<open>pos < endPos\<close> "1.prems"
      have "blockCommentEnd src (pos + 1) endPos = (p, Some at)"
        by (subst (asm) blockCommentEnd.simps) auto
      with "1.IH" [OF \<open>pos < endPos\<close> False] show ?thesis by simp
    qed
  qed
qed

lemma tsMarkerScan_spaces:
  "tsMarkerScan src pos endPos = (q, b) \<Longrightarrow>
     pos \<le> q \<and> (\<forall>i. pos \<le> i \<and> i < q \<longrightarrow> charCodeAt src i = Some space)
     \<and> (b \<longrightarrow> charCodeAt src q = Some colon \<and> q < endPos)"
proof (induction src pos endPos rule: tsMarkerScan.induct)
  case (1 src pos endPos)
  show ?case
  proof (cases "pos < endPos \<and> charCodeAt src pos = Some space")
    case False
    with "1.prems" show ?thesis
      by (subst (asm) tsMarkerScan.simps) (auto split: if_splits)
  next
    case True
    with "1.prems" have r: "tsMarkerScan src (pos + 1) endPos = (q, b)"
      by (subst (asm) tsMarkerScan.simps) auto
    from True have a: "pos < endPos" and s: "charCodeAt src pos = Some space" by auto
    from "1.IH" [OF a s r]
    have ih: "pos + 1 \<le> q"
      "\<forall>i. pos + 1 \<le> i \<and> i < q \<longrightarrow> charCodeAt src i = Some space"
      "b \<longrightarrow> charCodeAt src q = Some colon \<and> q < endPos"
      by auto
    have "\<forall>i. pos \<le> i \<and> i < q \<longrightarrow> charCodeAt src i = Some space"
    proof (intro allI impI)
      fix i assume "pos \<le> i \<and> i < q"
      then show "charCodeAt src i = Some space"
        using ih(2) s by (cases "i = pos") auto
    qed
    with ih show ?thesis by simp
  qed
qed

lemma blockCommentStep_events:
  assumes "blockCommentStep src pos endPos = Continue p es"
  shows "sorted_wrt (<) (map fst es) \<and> (\<forall>x\<in>set es. pos \<le> fst x \<and> fst x < p)"
proof -
  obtain q b where q: "tsMarkerScan src (pos + 2) endPos = (q, b)"
    by (cases "tsMarkerScan src (pos + 2) endPos")
  have qge: "pos + 2 \<le> q"
    using tsMarkerScan_spaces [OF q] by simp
  obtain r c where r: "blockCommentEnd src (if b then q + 3 else q) endPos = (r, c)"
    by (cases "blockCommentEnd src (if b then q + 3 else q) endPos")
  have rge: "q \<le> r"
    using blockCommentEnd_ge [of "if b then q + 3 else q" src endPos] r
    by (simp split: if_splits)
  have c: "c = Some at \<Longrightarrow> q \<le> at \<and> r = at + 2" for at
    using blockCommentEnd_Some [of src "if b then q + 3 else q" endPos r at] r
    by (simp split: if_splits)
  show ?thesis
    using assms q r qge rge c
    by (auto simp: blockCommentStep_def Let_def colonCountAt_def split: if_splits option.splits)
qed

lemma commentScanStep_events:
  assumes "commentScanStep src pos endPos stop = Continue p es"
  shows "sorted_wrt (<) (map fst es) \<and> (\<forall>x\<in>set es. pos \<le> fst x \<and> fst x < p)"
proof -
  have b: "blockCommentStep src pos endPos = Continue p es \<Longrightarrow> ?thesis"
    by (rule blockCommentStep_events)
  show ?thesis
    using assms b
    by (simp add: commentScanStep_def Let_def split: if_splits) auto
qed

lemma commentScan_events_increasing:
  "commentScan src pos endPos stop = Inr (q, es) \<Longrightarrow>
     sorted_wrt (<) (map fst es) \<and> (\<forall>x\<in>set es. pos \<le> fst x)"
proof (induction src pos endPos stop arbitrary: q es rule: commentScan.induct)
  case (1 src pos endPos stop)
  show ?case
  proof (cases "commentScanStep src pos endPos stop")
    case (Return p)
    with "1.prems" show ?thesis by (simp add: commentScan.simps)
  next
    case Throw
    with "1.prems" show ?thesis by (simp add: commentScan.simps)
  next
    case (Continue p es1)
    with "1.prems" obtain rest where
      r: "commentScan src p endPos stop = Inr (q, rest)" and es: "es = es1 @ rest"
      by (subst (asm) commentScan.simps) (auto split: sum.splits)
    from "1.IH" [OF Continue r]
    have ih: "sorted_wrt (<) (map fst rest)" "\<forall>x\<in>set rest. p \<le> fst x" by auto
    from commentScanStep_events [OF Continue]
    have st: "sorted_wrt (<) (map fst es1)" "\<forall>x\<in>set es1. pos \<le> fst x \<and> fst x < p" by auto
    from commentScanStep_progress [OF Continue] have "pos < p" by simp
    with ih st es show ?thesis
      by (fastforce simp: sorted_wrt_append)
  qed
qed

lemma commentScan_at_end:
  "endPos \<le> pos \<Longrightarrow> commentScan src pos endPos stop = Inr (pos, [])"
  by (simp add: commentScan.simps commentScanStep_def)

section \<open>Applying the delimiter events to a cursor\<close>

text \<open>
  What \<open>onCommentDelimiter\<close> does to \<open>state\<close>, apart from the map: used to state
  what a sequence of calls does to a cursor.
\<close>

definition delimiterState ::
  "nat \<times> BlockCommentDelimiterType \<Rightarrow> TsCommentScannerState \<Rightarrow> TsCommentScannerState" where
  "delimiterState ev s =
     (if snd ev = Close then NotInComment
      else if snd ev = OpenTsCommentWithoutColons then InTSBlockComment
      else if snd ev = OpenNonTsComment then InBlockComment
      else s)"

lemma fold_onCommentDelimiter:
  "fold onCommentDelimiter es (c, st) =
     (c\<lparr>scannerState := fold delimiterState es (scannerState c)\<rparr>,
      st\<lparr>cells := (cells st)(delimiterPositions c :=
            fold (\<lambda>ev. AList.update (fst ev) (snd ev)) es (cells st (delimiterPositions c)))\<rparr>)"
proof (induction es arbitrary: c st)
  case Nil
  then show ?case by simp
next
  case (Cons ev es)
  obtain at ty where ev: "ev = (at, ty)" by (cases ev)
  have upd: "\<And>f g. f = g \<Longrightarrow> st\<lparr>cells := f\<rparr> = st\<lparr>cells := g\<rparr>"
    by simp
  show ?case
    by (cases ty) (auto simp add: ev Cons.IH delimiterState_def Let_def intro!: upd)
qed

lemma fold_delimiterState_idem:
  "fold delimiterState es (fold delimiterState es s) = fold delimiterState es s"
proof (induction es arbitrary: s rule: rev_induct)
  case Nil
  then show ?case by simp
next
  case (snoc ev es)
  show ?case
  proof (cases "snd ev = Close \<or> snd ev = OpenTsCommentWithoutColons \<or> snd ev = OpenNonTsComment")
    case True
    then show ?thesis by (auto simp: delimiterState_def)
  next
    case False
    then have "delimiterState ev t = t" for t
      by (simp add: delimiterState_def)
    then show ?thesis using snoc.IH by simp
  qed
qed

lemma update_fold_commute:
  "k \<in> fst ` set m \<Longrightarrow> k \<notin> fst ` set es \<Longrightarrow>
   AList.update k v (fold (\<lambda>ev. AList.update (fst ev) (snd ev)) es m)
   = fold (\<lambda>ev. AList.update (fst ev) (snd ev)) es (AList.update k v m)"
proof (induction es arbitrary: m)
  case Nil
  then show ?case by simp
next
  case (Cons ev es)
  have ne: "fst ev \<noteq> k" using Cons.prems by auto
  have sw: "AList.update k v (AList.update (fst ev) (snd ev) m)
            = AList.update (fst ev) (snd ev) (AList.update k v m)"
    using Cons.prems(1) ne
  proof (induction m)
    case Nil
    then show ?case by simp
  next
    case (Cons a m)
    then show ?case by (cases "fst a = k") auto
  qed
  have "k \<in> fst ` set (AList.update (fst ev) (snd ev) m)"
    using Cons.prems(1) by (simp add: dom_update)
  with Cons show ?case by (simp add: sw)
qed

lemma fold_update_idem:
  "distinct (map fst es) \<Longrightarrow>
   fold (\<lambda>ev. AList.update (fst ev) (snd ev)) es
     (fold (\<lambda>ev. AList.update (fst ev) (snd ev)) es m)
   = fold (\<lambda>ev. AList.update (fst ev) (snd ev)) es m"
proof (induction es arbitrary: m)
  case Nil
  then show ?case by simp
next
  case (Cons ev es)
  let ?f = "\<lambda>ev. AList.update (fst ev) (snd ev)"
  let ?M = "AList.update (fst ev) (snd ev) m"
  have k: "fst ev \<in> fst ` set ?M" by (simp add: dom_update)
  have nk: "fst ev \<notin> fst ` set es" using Cons.prems by auto
  have "AList.update (fst ev) (snd ev) (fold ?f es ?M) = fold ?f es (AList.update (fst ev) (snd ev) ?M)"
    by (rule update_fold_commute [OF k nk])
  also have "\<dots> = fold ?f es ?M" by simp
  finally have "fold ?f es (AList.update (fst ev) (snd ev) (fold ?f es ?M)) = fold ?f es (fold ?f es ?M)"
    by simp
  also have "\<dots> = fold ?f es ?M"
    using Cons.IH Cons.prems by simp
  finally show ?case by simp
qed

lemma fold_onCommentDelimiter_idem:
  assumes "distinct (map fst es)"
  shows "fold onCommentDelimiter es (fold onCommentDelimiter es cs) = fold onCommentDelimiter es cs"
proof -
  obtain c st where cs: "cs = (c, st)" by (cases cs)
  show ?thesis
    using fold_update_idem [OF assms]
    by (simp add: cs fold_onCommentDelimiter fold_delimiterState_idem)
qed

lemma commentScan_events_distinct:
  "commentScan src pos endPos stop = Inr (q, es) \<Longrightarrow> distinct (map fst es)"
  using commentScan_events_increasing [of src pos endPos stop q es]
  by (simp add: strict_sorted_iff)

lemma fold_onCommentDelimiter_text:
  "scannerText (fst (fold onCommentDelimiter es cs)) = scannerText (fst cs)"
  "scannerPos (fst (fold onCommentDelimiter es cs)) = scannerPos (fst cs)"
  "delimiterPositions (fst (fold onCommentDelimiter es cs)) = delimiterPositions (fst cs)"
  by (cases cs; simp add: fold_onCommentDelimiter)+

lemma fold_onCommentDelimiter_setPos:
  "fold onCommentDelimiter es (c\<lparr>scannerPos := p\<rparr>, st) =
     (fst (fold onCommentDelimiter es (c, st))\<lparr>scannerPos := p\<rparr>,
      snd (fold onCommentDelimiter es (c, st)))"
  by (simp add: fold_onCommentDelimiter)

lemma scanTo_passed:
  "endPos < scannerPos (fst cs) \<Longrightarrow> scanTo endPos cs = Inr (False, cs)"
  by (simp add: scanTo_def)

lemma scanThroughLeafNode_passed:
  "nodeEnd < scannerPos (fst cs) \<Longrightarrow> scanThroughLeafNode nodePos nodeEnd cs = Inr (False, cs)"
  by (simp add: scanThroughLeafNode_def)

lemma scanTo_fold:
  "fold (\<lambda>ev (b, cs'). (False, onCommentDelimiter ev cs')) es (b0, cs0)
   = (b0 \<and> es = [], fold onCommentDelimiter es cs0)"
  by (induction es arbitrary: b0 cs0) auto

lemma scanTo_result:
  assumes "scannerPos (fst cs) \<le> endPos" and "scanTo endPos cs = Inr (r, cs')"
  shows "\<exists>es1 es2.
           cs' = (fst (fold onCommentDelimiter es2 (fold onCommentDelimiter es1 cs))
                    \<lparr>scannerPos := endPos\<rparr>,
                  snd (fold onCommentDelimiter es2 (fold onCommentDelimiter es1 cs)))"
proof (cases "commentScan (scannerText (fst cs)) (scannerPos (fst cs)) endPos True")
  case (Inl e)
  with assms show ?thesis by (simp add: scanTo_def)
next
  case (Inr a)
  obtain p1 es1 where a: "a = (p1, es1)" by (cases a)
  show ?thesis
  proof (cases "commentScan (scannerText (fst cs)) p1 endPos False")
    case (Inl e)
    with assms Inr a show ?thesis by (simp add: scanTo_def)
  next
    case (Inr b)
    obtain p2 es2 where b: "b = (p2, es2)" by (cases b)
    have "cs' = (fst (fold onCommentDelimiter es2 (fold onCommentDelimiter es1 cs))
                    \<lparr>scannerPos := endPos\<rparr>,
                  snd (fold onCommentDelimiter es2 (fold onCommentDelimiter es1 cs)))"
      using assms \<open>commentScan (scannerText (fst cs)) (scannerPos (fst cs)) endPos True = Inr a\<close>
        a Inr b
      by (simp add: scanTo_def Let_def scanTo_fold split: prod.splits)
    then show ?thesis by blast
  qed
qed

lemma scanTo_pos:
  assumes "scannerPos (fst cs) \<le> endPos" and "scanTo endPos cs = Inr (r, cs')"
  shows "scannerPos (fst cs') = endPos \<and> scannerText (fst cs') = scannerText (fst cs)"
  using scanTo_result [OF assms] by (auto simp: fold_onCommentDelimiter_text)

lemma scanTo_again:
  assumes "scannerPos (fst cs) \<le> endPos" and "scanTo endPos cs = Inr (r, cs')"
  shows "scanTo endPos cs' = Inr (scannerState (fst cs') = InTSBlockComment, cs')"
proof -
  from scanTo_pos [OF assms] have p: "scannerPos (fst cs') = endPos" by simp
  obtain c st where c: "cs' = (c, st)" by (cases cs')
  from p c have "c\<lparr>scannerPos := endPos\<rparr> = c" by simp
  then show ?thesis
    using p c by (simp add: scanTo_def commentScan_at_end)
qed

lemma scanThroughLeafNode_again:
  assumes "scannerPos (fst cs) \<le> nodeEnd" and "nodePos \<le> nodeEnd"
    and "scanThroughLeafNode nodePos nodeEnd cs = Inr (r, cs')"
  shows "scanThroughLeafNode nodePos nodeEnd cs' = Inr (r, cs')"
proof (cases "commentScan (scannerText (fst cs)) (scannerPos (fst cs)) nodePos False")
  case (Inl e)
  with assms show ?thesis by (simp add: scanThroughLeafNode_def)
next
  case (Inr a)
  note s1 = Inr
  obtain p1 es1 where a: "a = (p1, es1)" by (cases a)
  show ?thesis
  proof (cases "commentScan (scannerText (fst cs)) nodePos nodeEnd True")
    case (Inl e)
    with assms s1 a show ?thesis by (simp add: scanThroughLeafNode_def)
  next
    case (Inr b)
    obtain p2 es2 where b: "b = (p2, es2)" by (cases b)
    let ?src = "scannerText (fst cs)"
    let ?cs2 = "fold onCommentDelimiter es2 (fold onCommentDelimiter es1 cs)"
    have s2: "commentScan ?src nodePos nodeEnd True = Inr (p2, es2)"
      using Inr b by simp
    have res: "r = (scannerState (fst ?cs2) = InTSBlockComment)
               \<and> cs' = (fst ?cs2\<lparr>scannerPos := nodeEnd\<rparr>, snd ?cs2)"
      using assms s1 a s2
      by (simp add: scanThroughLeafNode_def Let_def split: prod.splits)
    then have r: "r = (scannerState (fst ?cs2) = InTSBlockComment)"
      and cs': "cs' = (fst ?cs2\<lparr>scannerPos := nodeEnd\<rparr>, snd ?cs2)"
      by simp_all
    have tx: "scannerText (fst cs') = ?src" "scannerPos (fst cs') = nodeEnd"
      by (simp_all add: cs' fold_onCommentDelimiter_text)
    have d: "distinct (map fst es2)"
      by (rule commentScan_events_distinct [OF s2])
    have idem: "fold onCommentDelimiter es2 ?cs2 = ?cs2"
      by (rule fold_onCommentDelimiter_idem [OF d])
    have again: "fold onCommentDelimiter es2 cs' = cs'"
      using idem by (simp add: cs' fold_onCommentDelimiter_setPos)
    have e: "commentScan ?src nodeEnd nodePos False = Inr (nodeEnd, [])"
      by (rule commentScan_at_end [OF assms(2)])
    have st: "scannerState (fst cs') = scannerState (fst ?cs2)"
      by (simp add: cs')
    obtain c st where c: "cs' = (c, st)" by (cases cs')
    have cp: "c\<lparr>scannerPos := nodeEnd\<rparr> = c"
      using tx(2) c by simp
    show ?thesis
      using tx e s2 again st r c cp
      by (simp add: scanThroughLeafNode_def)
  qed
qed

section \<open>An invariant of the delimiter map\<close>

text \<open>
  Every event \<open>commentScan\<close> emits sits on the characters it names: a \<open>close\<close> on
  \<open>*/\<close>, an opener on \<open>/*\<close>, a colon event on a colon. An
  \<open>openTsCommentWithoutColons\<close> is followed at once by the colon event of its marker,
  which lies after the opener with nothing but spaces in between.
\<close>

definition isColonDelimiter :: "BlockCommentDelimiterType \<Rightarrow> bool" where
  "isColonDelimiter ty \<longleftrightarrow> ty = SingleColonForOpenTsComment \<or> ty = DoubleColonForOpenTsComment"

definition delimiterAt :: "nat list \<Rightarrow> nat \<times> BlockCommentDelimiterType \<Rightarrow> bool" where
  "delimiterAt src ev \<longleftrightarrow>
     (case snd ev of
        Close \<Rightarrow> charCodeAt src (fst ev) = Some asterisk \<and> charCodeAt src (fst ev + 1) = Some slash
      | OpenNonTsComment \<Rightarrow>
          charCodeAt src (fst ev) = Some slash \<and> charCodeAt src (fst ev + 1) = Some asterisk
      | OpenTsCommentWithoutColons \<Rightarrow>
          charCodeAt src (fst ev) = Some slash \<and> charCodeAt src (fst ev + 1) = Some asterisk
      | SingleColonForOpenTsComment \<Rightarrow> charCodeAt src (fst ev) = Some colon
      | DoubleColonForOpenTsComment \<Rightarrow> charCodeAt src (fst ev) = Some colon)"

definition markerAt :: "nat list \<Rightarrow> nat \<Rightarrow> nat \<Rightarrow> bool" where
  "markerAt src p q \<longleftrightarrow>
     p + 2 \<le> q \<and> (\<forall>i. p + 2 \<le> i \<and> i < q \<longrightarrow> charCodeAt src i = Some space)
     \<and> charCodeAt src q = Some colon"

fun eventsOk :: "nat list \<Rightarrow> (nat \<times> BlockCommentDelimiterType) list \<Rightarrow> bool" where
  "eventsOk src [] = True"
| "eventsOk src (ev # rest) =
     (delimiterAt src ev
      \<and> (snd ev = OpenTsCommentWithoutColons \<longrightarrow>
           rest \<noteq> [] \<and> isColonDelimiter (snd (hd rest))
           \<and> markerAt src (fst ev) (fst (hd rest)))
      \<and> eventsOk src rest)"

lemma eventsOk_append:
  "eventsOk src es1 \<Longrightarrow> eventsOk src es2 \<Longrightarrow> eventsOk src (es1 @ es2)"
proof (induction es1)
  case Nil
  then show ?case by simp
next
  case (Cons ev es1)
  then have "eventsOk src (es1 @ es2)" by simp
  moreover have "es1 \<noteq> [] \<Longrightarrow> hd (es1 @ es2) = hd es1" by simp
  ultimately show ?case using Cons.prems(1) by simp
qed

lemma blockCommentStep_eventsOk:
  assumes "blockCommentStep src pos endPos = Continue p es"
    and "charCodeAt src pos = Some slash" and "charCodeAt src (pos + 1) = Some asterisk"
  shows "eventsOk src es"
proof -
  obtain q b where q: "tsMarkerScan src (pos + 2) endPos = (q, b)"
    by (cases "tsMarkerScan src (pos + 2) endPos")
  from tsMarkerScan_spaces [OF q]
  have m: "b \<Longrightarrow> markerAt src pos q"
    by (simp add: markerAt_def)
  obtain r c where r: "blockCommentEnd src (if b then q + 3 else q) endPos = (r, c)"
    by (cases "blockCommentEnd src (if b then q + 3 else q) endPos")
  have c: "c = Some at \<Longrightarrow> delimiterAt src (at, Close)" for at
    using blockCommentEnd_Some [of src "if b then q + 3 else q" endPos r at] r
    by (simp add: delimiterAt_def split: if_splits)
  have o: "delimiterAt src (pos, OpenNonTsComment)" "delimiterAt src (pos, OpenTsCommentWithoutColons)"
    using assms(2,3) by (simp_all add: delimiterAt_def)
  have t: "b \<Longrightarrow> delimiterAt src (q, SingleColonForOpenTsComment)
               \<and> delimiterAt src (q, DoubleColonForOpenTsComment)"
    using m by (simp add: delimiterAt_def markerAt_def)
  show ?thesis
    using assms(1) q r m c o t
    by (auto simp: blockCommentStep_def Let_def isColonDelimiter_def
          split: if_splits option.splits)
qed

lemma commentScanStep_eventsOk:
  assumes "commentScanStep src pos endPos stop = Continue p es"
  shows "eventsOk src es"
proof -
  have b: "codePointAt src pos = Some slash \<Longrightarrow> charCodeAt src (pos + 1) = Some asterisk \<Longrightarrow>
           blockCommentStep src pos endPos = Continue p es \<Longrightarrow> ?thesis"
    using blockCommentStep_eventsOk [of src pos endPos p es] codePointAt_ascii [of src pos slash]
    by simp
  have c: "codePointAt src pos = Some asterisk \<Longrightarrow> charCodeAt src (pos + 1) = Some slash \<Longrightarrow>
           delimiterAt src (pos, Close)"
    using codePointAt_ascii [of src pos asterisk] by (simp add: delimiterAt_def)
  show ?thesis
    using assms b c
    by (simp add: commentScanStep_def Let_def split: if_splits) auto
qed

lemma commentScan_eventsOk:
  "commentScan src pos endPos stop = Inr (q, es) \<Longrightarrow> eventsOk src es"
proof (induction src pos endPos stop arbitrary: q es rule: commentScan.induct)
  case (1 src pos endPos stop)
  show ?case
  proof (cases "commentScanStep src pos endPos stop")
    case (Return p)
    with "1.prems" show ?thesis by (simp add: commentScan.simps)
  next
    case Throw
    with "1.prems" show ?thesis by (simp add: commentScan.simps)
  next
    case (Continue p es1)
    with "1.prems" obtain rest where
      r: "commentScan src p endPos stop = Inr (q, rest)" and es: "es = es1 @ rest"
      by (subst (asm) commentScan.simps) (auto split: sum.splits)
    from "1.IH" [OF Continue r] commentScanStep_eventsOk [OF Continue] es
    show ?thesis by (simp add: eventsOk_append)
  qed
qed

text \<open>
  The invariant of a delimiter map over a text: distinct keys, every entry on its
  characters, and for every \<open>openTsCommentWithoutColons\<close> the colon event of its marker
  in the map too (or, while a scan's events are being applied, next in line).
\<close>

definition delimitersOk ::
  "nat list \<Rightarrow> BlockCommentDelimiterPositions \<Rightarrow> (nat \<times> BlockCommentDelimiterType) list \<Rightarrow> bool" where
  "delimitersOk src m es \<longleftrightarrow>
     distinct (map fst m) \<and> (\<forall>ev\<in>set m. delimiterAt src ev)
     \<and> (\<forall>p. (p, OpenTsCommentWithoutColons) \<in> set m \<longrightarrow>
            (\<exists>q t. markerAt src p q \<and> isColonDelimiter t
                   \<and> ((q, t) \<in> set m \<or> (es \<noteq> [] \<and> hd es = (q, t)))))"

lemma set_update_distinct:
  "distinct (map fst m) \<Longrightarrow>
   set (AList.update k v m) = insert (k, v) {x \<in> set m. fst x \<noteq> k}"
proof (induction m)
  case Nil
  then show ?case by simp
next
  case (Cons a m)
  then show ?case by (cases a) (auto simp: image_iff)
qed

lemma colon_is_colonDelimiter:
  "delimiterAt src (q, ty) \<Longrightarrow> charCodeAt src q = Some colon \<Longrightarrow> isColonDelimiter ty"
  by (cases ty) (simp_all add: delimiterAt_def isColonDelimiter_def)

lemma delimitersOk_step:
  assumes ok: "delimitersOk src m (ev # rest)" and ev: "eventsOk src (ev # rest)"
  shows "delimitersOk src (AList.update (fst ev) (snd ev) m) rest"
proof -
  let ?m' = "AList.update (fst ev) (snd ev) m"
  from ok have d: "distinct (map fst m)" by (simp add: delimitersOk_def)
  have s: "set ?m' = insert ev {x \<in> set m. fst x \<noteq> fst ev}"
    using set_update_distinct [OF d, of "fst ev" "snd ev"] by simp
  have d': "distinct (map fst ?m')"
    using d by (rule distinct_update)
  from ev have eat: "delimiterAt src ev" by simp
  have all: "\<forall>x\<in>set ?m'. delimiterAt src x"
    using ok eat s by (auto simp: delimitersOk_def)
  have op: "\<exists>q t. markerAt src p q \<and> isColonDelimiter t
                 \<and> ((q, t) \<in> set ?m' \<or> (rest \<noteq> [] \<and> hd rest = (q, t)))"
    if p: "(p, OpenTsCommentWithoutColons) \<in> set ?m'" for p
  proof (cases "ev = (p, OpenTsCommentWithoutColons)")
    case True
    with ev have "rest \<noteq> []" "isColonDelimiter (snd (hd rest))" "markerAt src p (fst (hd rest))"
      by auto
    then show ?thesis
      by (metis prod.collapse)
  next
    case False
    with p s have pm: "(p, OpenTsCommentWithoutColons) \<in> set m" by auto
    with ok obtain q t where m: "markerAt src p q" and t: "isColonDelimiter t"
      and qt: "(q, t) \<in> set m \<or> ev = (q, t)"
      by (auto simp: delimitersOk_def)
    show ?thesis
    proof (cases "fst ev = q")
      case True
      from m have "charCodeAt src q = Some colon" by (simp add: markerAt_def)
      with eat True have "isColonDelimiter (snd ev)"
        using colon_is_colonDelimiter [of src q "snd ev"] by (metis prod.collapse)
      moreover have "(q, snd ev) \<in> set ?m'" using s True by auto
      ultimately show ?thesis using m by blast
    next
      case False
      with qt have "(q, t) \<in> set m" by auto
      with False s have "(q, t) \<in> set ?m'" by auto
      with m t show ?thesis by blast
    qed
  qed
  show ?thesis
    unfolding delimitersOk_def using d' all op by blast
qed

lemma delimitersOk_fold:
  "delimitersOk src m es \<Longrightarrow> eventsOk src es \<Longrightarrow>
   delimitersOk src (fold (\<lambda>ev. AList.update (fst ev) (snd ev)) es m) []"
proof (induction es arbitrary: m)
  case Nil
  then show ?case by simp
next
  case (Cons ev es)
  from delimitersOk_step [OF Cons.prems]
  have "delimitersOk src (AList.update (fst ev) (snd ev) m) es" .
  moreover from Cons.prems(2) have "eventsOk src es" by simp
  ultimately show ?case using Cons.IH by simp
qed

lemma delimitersOk_weaken:
  "delimitersOk src m [] \<Longrightarrow> delimitersOk src m es"
  unfolding delimitersOk_def by simp blast

lemma delimitersOk_scan:
  assumes "delimitersOk src m []" and "commentScan src pos endPos stop = Inr (q, es)"
  shows "delimitersOk src (fold (\<lambda>ev. AList.update (fst ev) (snd ev)) es m) []"
  using delimitersOk_fold [OF delimitersOk_weaken [OF assms(1)] commentScan_eventsOk [OF assms(2)]] .

section \<open>The spans rebuilt from the delimiter map\<close>

lemma no_delimiter_inside_marker:
  assumes "markerAt src p q" and "charCodeAt src (p + 1) = Some asterisk"
    and "p < k" and "k < q"
  shows "\<not> delimiterAt src (k, ty)"
proof (cases "k = p + 1")
  case True
  have "charCodeAt src (p + 2) = Some space \<or> charCodeAt src (p + 2) = Some colon"
    using assms(1,4) True by (cases "p + 2 = q") (auto simp: markerAt_def)
  with True assms(2) show ?thesis
    by (cases ty) (auto simp: delimiterAt_def)
next
  case False
  with assms(3) have "p + 2 \<le> k" by simp
  with assms(1,4) have "charCodeAt src k = Some space" by (simp add: markerAt_def)
  then show ?thesis by (cases ty) (auto simp: delimiterAt_def)
qed

text \<open>
  In a list of delimiters, every \<open>openTsCommentWithoutColons\<close> has a colon event as
  its successor.
\<close>

fun paired :: "(nat \<times> BlockCommentDelimiterType) list \<Rightarrow> bool" where
  "paired [] = True"
| "paired (ev # rest) =
     ((snd ev = OpenTsCommentWithoutColons \<longrightarrow>
         rest \<noteq> [] \<and> isColonDelimiter (snd (hd rest)))
      \<and> paired rest)"

lemma paired_sorted:
  assumes "sorted_wrt (<) (map fst L)" and "\<forall>ev\<in>set L. delimiterAt src ev"
    and "\<forall>p. (p, OpenTsCommentWithoutColons) \<in> set L \<longrightarrow>
           (\<exists>q t. markerAt src p q \<and> isColonDelimiter t \<and> (q, t) \<in> set L)"
  shows "paired L"
  using assms
proof (induction L)
  case Nil
  then show ?case by simp
next
  case (Cons ev rest)
  have lt: "\<forall>x\<in>set rest. fst ev < fst x" using Cons.prems(1) by auto
  have later: "(q, t) \<in> set rest"
    if "(p, OpenTsCommentWithoutColons) \<in> set (ev # rest)" "markerAt src p q"
      "(q, t) \<in> set (ev # rest)" for p q t
  proof -
    from that(2) have "p < q" by (simp add: markerAt_def)
    have "fst ev \<le> p" using that(1) lt by auto
    with \<open>p < q\<close> have "ev \<noteq> (q, t)" by auto
    with that(3) show ?thesis by simp
  qed
  have "paired rest"
  proof (rule Cons.IH)
    show "sorted_wrt (<) (map fst rest)" using Cons.prems(1) by simp
    show "\<forall>ev\<in>set rest. delimiterAt src ev" using Cons.prems(2) by simp
    show "\<forall>p. (p, OpenTsCommentWithoutColons) \<in> set rest \<longrightarrow>
           (\<exists>q t. markerAt src p q \<and> isColonDelimiter t \<and> (q, t) \<in> set rest)"
    proof (intro allI impI)
      fix p assume p: "(p, OpenTsCommentWithoutColons) \<in> set rest"
      then have "(p, OpenTsCommentWithoutColons) \<in> set (ev # rest)" by simp
      with Cons.prems(3) obtain q t where
        m: "markerAt src p q" "isColonDelimiter t" "(q, t) \<in> set (ev # rest)" by blast
      from later [OF \<open>(p, OpenTsCommentWithoutColons) \<in> set (ev # rest)\<close> m(1) m(3)] m
      show "\<exists>q t. markerAt src p q \<and> isColonDelimiter t \<and> (q, t) \<in> set rest" by blast
    qed
  qed
  moreover have "rest \<noteq> [] \<and> isColonDelimiter (snd (hd rest))"
    if o: "snd ev = OpenTsCommentWithoutColons"
  proof -
    let ?p = "fst ev"
    from o have e: "ev = (?p, OpenTsCommentWithoutColons)" by (metis prod.collapse)
    then have mem: "(?p, OpenTsCommentWithoutColons) \<in> set (ev # rest)" by simp
    with Cons.prems(3) obtain q t where
      m: "markerAt src ?p q" "isColonDelimiter t" "(q, t) \<in> set (ev # rest)" by blast
    from later [OF mem m(1) m(3)] have qt: "(q, t) \<in> set rest" .
    then have ne: "rest \<noteq> []" by auto
    from ne obtain k ty tl' where r: "rest = (k, ty) # tl'"
      by (cases rest) auto
    have h: "hd rest = (k, ty)" using r by simp
    have hm: "(k, ty) \<in> set rest" using r by simp
    from lt hm have pk: "?p < k" by auto
    have srt: "\<forall>x\<in>set tl'. k < fst x"
      using Cons.prems(1) r by simp
    have kq: "k \<le> q"
    proof (cases "(q, t) = (k, ty)")
      case True
      then show ?thesis by simp
    next
      case False
      with qt r have "(q, t) \<in> set tl'" by auto
      with srt show ?thesis by auto
    qed
    have "delimiterAt src ev" using Cons.prems(2) by simp
    then have star: "charCodeAt src (?p + 1) = Some asterisk"
      using o by (simp add: delimiterAt_def)
    have kat: "delimiterAt src (k, ty)" using Cons.prems(2) hm by auto
    have "k = q"
    proof (rule ccontr)
      assume "k \<noteq> q"
      with kq have "k < q" by simp
      from no_delimiter_inside_marker [OF m(1) star pk this] kat show False by simp
    qed
    moreover from m(1) have "charCodeAt src q = Some colon" by (simp add: markerAt_def)
    ultimately have "isColonDelimiter ty"
      using kat colon_is_colonDelimiter by blast
    with ne h show ?thesis by simp
  qed
  ultimately show ?case by simp
qed

text \<open>
  A span with all four offsets assigned, in the order open, colon, close, and a colon
  count of 1 or 2.
\<close>

definition populated :: "TsCommentPosition \<Rightarrow> bool" where
  "populated sp \<longleftrightarrow>
     (\<exists>opn col cls n. open sp = Some opn \<and> colonPos sp = Some col \<and> close sp = Some cls
        \<and> colonCount sp = Some n \<and> opn < col \<and> col < cls \<and> (n = 1 \<or> n = 2))"

text \<open>
  What holds of the loop variables of \<open>getTSCommentPositions\<close> before each iteration,
  \<open>L\<close> being the delimiters still to come.
\<close>

fun positionsInv ::
  "(nat \<times> BlockCommentDelimiterType) list
   \<Rightarrow> TsCommentPosition list \<times> TsCommentPosition \<times> bool \<Rightarrow> bool" where
  "positionsInv L (result, cur, inTSComment) =
     ((\<forall>sp\<in>set result. populated sp)
      \<and> (if inTSComment then
            (\<exists>opn. open cur = Some opn \<and> (\<forall>x\<in>set L. opn < fst x)
               \<and> (case colonPos cur of
                     None \<Rightarrow> L \<noteq> [] \<and> isColonDelimiter (snd (hd L))
                   | Some col \<Rightarrow> opn < col \<and> (\<forall>x\<in>set L. col < fst x)
                       \<and> (colonCount cur = Some 1 \<or> colonCount cur = Some 2)))
          else cur = newTsCommentPosition))"

lemma positionsInv_step:
  assumes p: "paired (ev # rest)" and s: "sorted_wrt (<) (map fst (ev # rest))"
    and i: "positionsInv (ev # rest) st"
  shows "positionsInv rest (tsCommentPositionsStep ev st)"
proof -
  obtain result cur inTS where st: "st = (result, cur, inTS)" by (cases st)
  obtain at ty where ev: "ev = (at, ty)" by (cases ev)
  have lt: "\<forall>x\<in>set rest. at < fst x" using s ev by simp
  show ?thesis
  proof (cases inTS)
    case False
    with i st have cur: "cur = newTsCommentPosition" and res: "\<forall>sp\<in>set result. populated sp"
      by simp_all
    show ?thesis
    proof (cases "ty = OpenTsCommentWithoutColons")
      case True
      with p ev have "rest \<noteq> [] \<and> isColonDelimiter (snd (hd rest))" by simp
      with True False st ev cur res lt show ?thesis
        by (simp add: newTsCommentPosition_def)
    next
      case False
      with \<open>\<not> inTS\<close> st ev cur res show ?thesis by simp
    qed
  next
    case True
    with i st obtain opn where
      res: "\<forall>sp\<in>set result. populated sp" and o: "open cur = Some opn"
      and oat: "opn < at" and orest: "\<forall>x\<in>set rest. opn < fst x"
      and c: "case colonPos cur of
                None \<Rightarrow> isColonDelimiter ty
              | Some col \<Rightarrow> opn < col \<and> col < at \<and> (\<forall>x\<in>set rest. col < fst x)
                  \<and> (colonCount cur = Some 1 \<or> colonCount cur = Some 2)"
      using ev by (auto split: option.splits)
    show ?thesis
    proof (cases ty)
      case OpenNonTsComment
      with True st ev res o orest c show ?thesis
        by (auto simp: isColonDelimiter_def split: option.splits)
    next
      case OpenTsCommentWithoutColons
      with True st ev res o orest c show ?thesis
        by (auto simp: isColonDelimiter_def split: option.splits)
    next
      case SingleColonForOpenTsComment
      with True st ev res o orest oat lt show ?thesis
        by simp
    next
      case DoubleColonForOpenTsComment
      with True st ev res o orest oat lt show ?thesis
        by simp
    next
      case Close
      with True st ev res o orest c show ?thesis
        by (auto simp: isColonDelimiter_def populated_def split: option.splits)
    qed
  qed
qed

lemma positionsInv_result:
  "positionsInv [] st \<Longrightarrow> \<forall>sp\<in>set (fst st). populated sp"
  by (cases st) simp

lemma positionsInv_fold:
  "paired L \<Longrightarrow> sorted_wrt (<) (map fst L) \<Longrightarrow> positionsInv L st \<Longrightarrow>
   positionsInv [] (fold tsCommentPositionsStep L st)"
proof (induction L arbitrary: st)
  case Nil
  then show ?case by simp
next
  case (Cons ev rest)
  from positionsInv_step [OF Cons.prems]
  have "positionsInv rest (tsCommentPositionsStep ev st)" .
  moreover from Cons.prems have "paired rest" "sorted_wrt (<) (map fst rest)" by simp_all
  ultimately show ?case using Cons.IH by simp
qed

definition cursorOk :: "TsCommentScanner \<times> store \<Rightarrow> bool" where
  "cursorOk cs \<longleftrightarrow> delimitersOk (scannerText (fst cs)) (getBlockCommentDelimiters cs) []"

lemma cursorOk_events:
  assumes "cursorOk cs" and "scannerText (fst cs) = src"
    and "commentScan src pos endPos stop = Inr (q, es)"
  shows "cursorOk (fold onCommentDelimiter es cs)"
proof -
  obtain c st where cs: "cs = (c, st)" by (cases cs)
  from assms(1,2) cs have "delimitersOk src (cells st (delimiterPositions c)) []"
    by (simp add: cursorOk_def getBlockCommentDelimiters_def)
  from delimitersOk_scan [OF this assms(3)] assms(2) cs show ?thesis
    by (simp add: cursorOk_def getBlockCommentDelimiters_def fold_onCommentDelimiter)
qed

lemma cursorOk_setPos:
  "cursorOk (c\<lparr>scannerPos := p\<rparr>, st) = cursorOk (c, st)"
  by (simp add: cursorOk_def getBlockCommentDelimiters_def)

lemma cursorOk_setPos':
  "cursorOk cs \<Longrightarrow> cursorOk (fst cs\<lparr>scannerPos := p\<rparr>, snd cs)"
  by (cases cs) (simp add: cursorOk_setPos)

lemma scanTo_ok:
  assumes "cursorOk cs" and "scanTo endPos cs = Inr (r, cs')"
  shows "cursorOk cs'"
proof (cases "endPos < scannerPos (fst cs)")
  case True
  with assms show ?thesis by (simp add: scanTo_def)
next
  case False
  let ?src = "scannerText (fst cs)"
  show ?thesis
  proof (cases "commentScan ?src (scannerPos (fst cs)) endPos True")
    case (Inl e)
    with assms False show ?thesis by (simp add: scanTo_def)
  next
    case (Inr a)
    note s1 = Inr
    obtain p1 es1 where a: "a = (p1, es1)" by (cases a)
    let ?cs1 = "fold onCommentDelimiter es1 cs"
    have ok1: "cursorOk ?cs1"
      using cursorOk_events [OF assms(1) refl] s1 a by simp
    have t1: "scannerText (fst ?cs1) = ?src" by (simp add: fold_onCommentDelimiter_text)
    show ?thesis
    proof (cases "commentScan ?src p1 endPos False")
      case (Inl e)
      with assms False s1 a show ?thesis by (simp add: scanTo_def)
    next
      case (Inr b)
      obtain p2 es2 where b: "b = (p2, es2)" by (cases b)
      let ?cs2 = "fold onCommentDelimiter es2 ?cs1"
      have ok2: "cursorOk ?cs2"
        using cursorOk_events [OF ok1 t1] Inr b by simp
      have "cs' = (fst ?cs2\<lparr>scannerPos := endPos\<rparr>, snd ?cs2)"
        using assms(2) False s1 a Inr b
        by (simp add: scanTo_def Let_def scanTo_fold split: prod.splits)
      with cursorOk_setPos' [OF ok2] show ?thesis by simp
    qed
  qed
qed

lemma scanThroughLeafNode_ok:
  assumes "cursorOk cs" and "scanThroughLeafNode nodePos nodeEnd cs = Inr (r, cs')"
  shows "cursorOk cs'"
proof (cases "nodeEnd < scannerPos (fst cs)")
  case True
  with assms show ?thesis by (simp add: scanThroughLeafNode_def)
next
  case False
  let ?src = "scannerText (fst cs)"
  show ?thesis
  proof (cases "commentScan ?src (scannerPos (fst cs)) nodePos False")
    case (Inl e)
    with assms False show ?thesis by (simp add: scanThroughLeafNode_def)
  next
    case (Inr a)
    note s1 = Inr
    obtain p1 es1 where a: "a = (p1, es1)" by (cases a)
    let ?cs1 = "fold onCommentDelimiter es1 cs"
    have ok1: "cursorOk ?cs1"
      using cursorOk_events [OF assms(1) refl] s1 a by simp
    have t1: "scannerText (fst ?cs1) = ?src" by (simp add: fold_onCommentDelimiter_text)
    show ?thesis
    proof (cases "commentScan ?src nodePos nodeEnd True")
      case (Inl e)
      with assms False s1 a show ?thesis by (simp add: scanThroughLeafNode_def)
    next
      case (Inr b)
      obtain p2 es2 where b: "b = (p2, es2)" by (cases b)
      let ?cs2 = "fold onCommentDelimiter es2 ?cs1"
      have ok2: "cursorOk ?cs2"
        using cursorOk_events [OF ok1 t1] Inr b by simp
      have "cs' = (fst ?cs2\<lparr>scannerPos := nodeEnd\<rparr>, snd ?cs2)"
        using assms(2) False s1 a Inr b
        by (simp add: scanThroughLeafNode_def Let_def split: prod.splits)
      with cursorOk_setPos' [OF ok2] show ?thesis by simp
    qed
  qed
qed

lemma scanUntilNextSignificantChar_ok:
  assumes "cursorOk cs" and "scanUntilNextSignificantChar maxPos cs = Inr (r, cs')"
  shows "cursorOk cs'"
proof (cases "maxPos < scannerPos (fst cs)")
  case True
  with assms show ?thesis by (simp add: scanUntilNextSignificantChar_def)
next
  case False
  show ?thesis
  proof (cases "commentScan (scannerText (fst cs)) (scannerPos (fst cs)) maxPos True")
    case (Inl e)
    with assms False show ?thesis by (simp add: scanUntilNextSignificantChar_def)
  next
    case (Inr a)
    obtain p1 es1 where a: "a = (p1, es1)" by (cases a)
    have "cursorOk (fold onCommentDelimiter es1 cs)"
      using cursorOk_events [OF assms(1) refl] Inr a by simp
    moreover have "cs' = fold onCommentDelimiter es1 cs"
      using assms(2) False Inr a by (simp add: scanUntilNextSignificantChar_def Let_def)
    ultimately show ?thesis by simp
  qed
qed

lemma scanUntilAtChar_ok:
  "cursorOk cs \<Longrightarrow> scanUntilAtChar charList maxPos cs = Inr cs' \<Longrightarrow> cursorOk cs'"
proof (induction charList maxPos cs rule: scanUntilAtChar.induct)
  case (1 charList maxPos cs)
  show ?case
  proof (cases "scannerPos (fst cs) < maxPos")
    case False
    with "1.prems" show ?thesis by (simp add: scanUntilAtChar.simps)
  next
    case True
    show ?thesis
    proof (cases "commentScan (scannerText (fst cs)) (scannerPos (fst cs)) maxPos True")
      case (Inl e)
      with "1.prems" True show ?thesis by (simp add: scanUntilAtChar.simps)
    next
      case (Inr a)
      obtain p1 es1 where a: "a = (p1, es1)" by (cases a)
      obtain c1 st1 where f: "fold onCommentDelimiter es1 cs = (c1, st1)"
        by (cases "fold onCommentDelimiter es1 cs")
      have "commentScan (scannerText (fst cs)) (scannerPos (fst cs)) maxPos True = Inr (p1, es1)"
        using Inr a by simp
      from cursorOk_events [OF "1.prems"(1) refl this] f
      have ok1: "cursorOk (c1, st1)" by simp
      show ?thesis
      proof (cases "case charCodeAt (scannerText (fst cs)) (scannerPos (fst cs)) of
                      None \<Rightarrow> False | Some ch \<Rightarrow> ch \<in> set charList")
        case True
        with "1.prems"(2) \<open>scannerPos (fst cs) < maxPos\<close> Inr a f have "cs' = (c1, st1)"
          by (subst (asm) scanUntilAtChar.simps) simp
        with ok1 show ?thesis by simp
      next
        case False
        with "1.prems"(2) \<open>scannerPos (fst cs) < maxPos\<close> Inr a f
        have r: "scanUntilAtChar charList maxPos
                   (c1\<lparr>scannerPos := scannerPos (fst cs) + 1\<rparr>, st1) = Inr cs'"
          by (subst (asm) scanUntilAtChar.simps) simp
        have ok: "cursorOk (c1\<lparr>scannerPos := scannerPos (fst cs) + 1\<rparr>, st1)"
          using ok1 by (simp add: cursorOk_setPos)
        from "1.IH" [OF \<open>scannerPos (fst cs) < maxPos\<close> Inr a [symmetric] refl f [symmetric] False ok r]
        show ?thesis .
      qed
    qed
  qed
qed

lemma scanUntilPastChar_ok:
  "cursorOk cs \<Longrightarrow> scanUntilPastChar charList maxPos cs = Inr cs' \<Longrightarrow> cursorOk cs'"
proof (induction charList maxPos cs rule: scanUntilPastChar.induct)
  case (1 charList maxPos cs)
  show ?case
  proof (cases "scannerPos (fst cs) < maxPos")
    case False
    with "1.prems" show ?thesis by (simp add: scanUntilPastChar.simps)
  next
    case True
    show ?thesis
    proof (cases "commentScan (scannerText (fst cs)) (scannerPos (fst cs)) maxPos True")
      case (Inl e)
      with "1.prems" True show ?thesis by (simp add: scanUntilPastChar.simps)
    next
      case (Inr a)
      obtain p1 es1 where a: "a = (p1, es1)" by (cases a)
      obtain c1 st1 where f: "fold onCommentDelimiter es1 cs = (c1, st1)"
        by (cases "fold onCommentDelimiter es1 cs")
      have "commentScan (scannerText (fst cs)) (scannerPos (fst cs)) maxPos True = Inr (p1, es1)"
        using Inr a by simp
      from cursorOk_events [OF "1.prems"(1) refl this] f
      have ok1: "cursorOk (c1, st1)" by simp
      then have ok: "cursorOk (c1\<lparr>scannerPos := scannerPos (fst cs) + 1\<rparr>, st1)"
        by (simp add: cursorOk_setPos)
      show ?thesis
      proof (cases "case charCodeAt (scannerText (fst cs)) (scannerPos (fst cs)) of
                      None \<Rightarrow> False | Some ch \<Rightarrow> ch \<in> set charList")
        case True
        with "1.prems"(2) \<open>scannerPos (fst cs) < maxPos\<close> Inr a f
        have "cs' = (c1\<lparr>scannerPos := scannerPos (fst cs) + 1\<rparr>, st1)"
          by (subst (asm) scanUntilPastChar.simps) simp
        with ok show ?thesis by simp
      next
        case False
        with "1.prems"(2) \<open>scannerPos (fst cs) < maxPos\<close> Inr a f
        have r: "scanUntilPastChar charList maxPos
                   (c1\<lparr>scannerPos := scannerPos (fst cs) + 1\<rparr>, st1) = Inr cs'"
          by (subst (asm) scanUntilPastChar.simps) simp
        from "1.IH" [OF \<open>scannerPos (fst cs) < maxPos\<close> Inr a [symmetric] refl f [symmetric] False ok r]
        show ?thesis .
      qed
    qed
  qed
qed

lemma map_sum_snd_Inr:
  "map_sum id snd x = Inr b \<Longrightarrow> \<exists>a. x = Inr (a, b)"
  by (cases x) auto

lemma callScanner_ok:
  assumes "cursorOk cs" and "callScanner call cs = Inr cs'"
  shows "cursorOk cs'"
proof (cases call)
  case (ScanThroughLeafNode nodePos nodeEnd)
  with assms(2) have "map_sum id snd (scanThroughLeafNode nodePos nodeEnd cs) = Inr cs'"
    by simp
  from map_sum_snd_Inr [OF this] obtain r where
    "scanThroughLeafNode nodePos nodeEnd cs = Inr (r, cs')" ..
  from scanThroughLeafNode_ok [OF assms(1) this] show ?thesis .
next
  case (ScanTo endPos)
  with assms(2) have "map_sum id snd (scanTo endPos cs) = Inr cs'"
    by simp
  from map_sum_snd_Inr [OF this] obtain r where "scanTo endPos cs = Inr (r, cs')" ..
  from scanTo_ok [OF assms(1) this] show ?thesis .
next
  case (ScanUntilNextSignificantChar maxPos)
  with assms(2) have "map_sum id snd (scanUntilNextSignificantChar maxPos cs) = Inr cs'"
    by simp
  from map_sum_snd_Inr [OF this] obtain r where
    "scanUntilNextSignificantChar maxPos cs = Inr (r, cs')" ..
  from scanUntilNextSignificantChar_ok [OF assms(1) this] show ?thesis .
next
  case (ScanUntilAtChar charList maxPos)
  with assms(2) have "scanUntilAtChar charList maxPos cs = Inr cs'" by simp
  from scanUntilAtChar_ok [OF assms(1) this] show ?thesis .
next
  case (ScanUntilPastChar charList maxPos)
  with assms(2) have "scanUntilPastChar charList maxPos cs = Inr cs'" by simp
  from scanUntilPastChar_ok [OF assms(1) this] show ?thesis .
qed

lemma callScannerAll_ok:
  "cursorOk cs \<Longrightarrow> callScannerAll calls cs = Inr cs' \<Longrightarrow> cursorOk cs'"
proof (induction calls arbitrary: cs)
  case Nil
  then show ?case by simp
next
  case (Cons call calls)
  show ?case
  proof (cases "callScanner call cs")
    case (Inl e)
    with Cons.prems(2) show ?thesis by simp
  next
    case (Inr cs1)
    from callScanner_ok [OF Cons.prems(1) Inr] have "cursorOk cs1" .
    moreover from Cons.prems(2) Inr have "callScannerAll calls cs1 = Inr cs'" by simp
    ultimately show ?thesis by (rule Cons.IH)
  qed
qed

lemma createTSCommentScanner_ok:
  "cursorOk (createTSCommentScanner src None None None emptyStore)"
  by (simp add: cursorOk_def createTSCommentScanner_def emptyStore_def
        getBlockCommentDelimiters_def delimitersOk_def)

lemma cursorOk_sorted:
  assumes "cursorOk cs"
  shows "paired (sort_key fst (getBlockCommentDelimiters cs))
         \<and> sorted_wrt (<) (map fst (sort_key fst (getBlockCommentDelimiters cs)))"
proof -
  let ?m = "getBlockCommentDelimiters cs"
  let ?L = "sort_key fst ?m"
  let ?src = "scannerText (fst cs)"
  from assms have d: "distinct (map fst ?m)" and at: "\<forall>ev\<in>set ?m. delimiterAt ?src ev"
    and op: "\<forall>p. (p, OpenTsCommentWithoutColons) \<in> set ?m \<longrightarrow>
              (\<exists>q t. markerAt ?src p q \<and> isColonDelimiter t \<and> (q, t) \<in> set ?m)"
    by (simp_all add: cursorOk_def delimitersOk_def)
  from d have "distinct ?m" "inj_on fst (set ?m)" by (simp_all add: distinct_map)
  then have "distinct (map fst ?L)" by (simp add: distinct_map)
  moreover have "sorted (map fst ?L)" by (rule sorted_sort_key)
  ultimately have s: "sorted_wrt (<) (map fst ?L)" by (simp add: strict_sorted_iff)
  have "paired ?L"
    by (rule paired_sorted [OF s, of ?src]) (use at op in simp_all)
  with s show ?thesis by simp
qed


section \<open>The partition computed by \<open>getSyntaxRanges\<close>\<close>














section \<open>The tokens scanned at a marker comment\<close>





definition stepAgrees :: "scanIteration \<Rightarrow> scanIteration \<Rightarrow> bool" where
  "stepAgrees r r' \<longleftrightarrow>
     (case r of
        ScanReturn k p g \<Rightarrow> (\<exists>g'. r' = ScanReturn k p g')
      | ScanContinue p g b \<Rightarrow>
          (\<exists>g'. r' = ScanContinue p g' b \<and> precedingLineBreak g = precedingLineBreak g'))"

lemma stepAgrees_simps [simp]:
  "stepAgrees (ScanReturn k p g) (ScanReturn k' p' g') \<longleftrightarrow> k = k' \<and> p = p'"
  "stepAgrees (ScanContinue p g b) (ScanContinue p' g' b') \<longleftrightarrow>
     p = p' \<and> b = b' \<and> precedingLineBreak g = precedingLineBreak g'"
  by (auto simp: stepAgrees_def)











section \<open>Evaluating the scanners on concrete texts\<close>

text \<open>
  The equations that unfold the scanners on a concrete text. The recursive ones are
  guarded by an \<open>if\<close> or a \<open>case\<close>, which the simplifier decides before it unfolds
  further.
\<close>

lemmas scan_eval =
  commentScan.simps commentScanStep_def codePointAt_def charCodeAt_def isShebangTrivia_def
  Let_def blockCommentStep_def tsMarkerScan.simps blockCommentEnd.simps lineCommentEnd.simps
  colonCountAt_def isWhiteSpaceCase_def isLineBreak_def scanShebangTrivia_def js_def

lemmas scanner_eval =
  scanTo_def scanThroughLeafNode_def scanUntilNextSignificantChar_def
  createTSCommentScanner_def clone_def emptyStore_def getTSCommentPositions_def
  newTsCommentPosition_def getBlockCommentDelimiters_def getCurrentPos_def

lemma commentScan_single_marker_example:
  "commentScan (js ''/*: number */'') 0 13 True =
     Inr (4, [(0, OpenTsCommentWithoutColons), (2, SingleColonForOpenTsComment)])"
  "commentScan (js ''/*: number */'') 4 13 False = Inr (13, [(11, Close)])"
  by (simp_all add: scan_eval)

lemma commentScan_jsdoc_marker_example:
  "commentScan (js ''/** @x *//*:: y */'') 0 18 True =
     Inr (14, [(0, OpenNonTsComment), (7, Close), (9, OpenTsCommentWithoutColons),
               (11, DoubleColonForOpenTsComment)])"
  "commentScan (js ''/** @x *//*:: y */'') 14 18 False = Inr (18, [(16, Close)])"
  by (simp_all add: scan_eval)






section \<open>Properties of the comment-span cursor\<close>

text \<open>
  C7 (as amended). In the text \<open>/*: number */\<close> the colon is the character at offset 2
  and the closing \<open>*/\<close> starts at offset 11. After the whole text has been scanned from
  a fresh cursor, by \<open>scanTo(13)\<close>, \<open>getTSCommentPositions()\<close> returns exactly one span, with \<open>open = 0\<close>,
  \<open>colonCount = 1\<close>, \<open>colonPos = 2\<close> and \<open>close = 11\<close>.
\<close>

theorem C7_single_marker_span:
  "map_sum id (\<lambda>(r, cs). getTSCommentPositions cs)
     (scanTo 13 (createTSCommentScanner (js ''/*: number */'') None None None emptyStore))
   = Inr [\<lparr>open = Some 0, colonPos = Some 2, close = Some 11, colonCount = Some 1,
           containedInnerOpeningBlockComment = False\<rparr>]"
  by (simp add: scanner_eval commentScan_single_marker_example)

text \<open>
  C7 as stated fails: scanning \<open>/*: number */\<close> does not give a span with
  \<open>colonPos = 3\<close> and \<open>close = 12\<close>.
\<close>

theorem C7_counterexample:
  "\<not> (\<exists>sp. map_sum id (\<lambda>(r, cs). getTSCommentPositions cs)
          (scanTo 13 (createTSCommentScanner (js ''/*: number */'') None None None emptyStore))
        = Inr [sp]
        \<and> open sp = Some 0 \<and> colonCount sp = Some 1 \<and> colonPos sp = Some 3
        \<and> close sp = Some 12)"
proof
  assume "\<exists>sp. map_sum id (\<lambda>(r, cs). getTSCommentPositions cs)
          (scanTo 13 (createTSCommentScanner (js ''/*: number */'') None None None emptyStore))
        = Inr [sp]
        \<and> open sp = Some 0 \<and> colonCount sp = Some 1 \<and> colonPos sp = Some 3
        \<and> close sp = Some 12"
  then obtain sp where
    sp: "map_sum id (\<lambda>(r, cs). getTSCommentPositions cs)
          (scanTo 13 (createTSCommentScanner (js ''/*: number */'') None None None emptyStore))
        = Inr [sp]"
    and c: "colonPos sp = Some 3"
    by blast
  from sp have "sp = \<lparr>open = Some 0, colonPos = Some 2, close = Some 11, colonCount = Some 1,
           containedInnerOpeningBlockComment = False\<rparr>"
    by (simp add: scanner_eval commentScan_single_marker_example)
  with c show False by simp
qed

text \<open>
  C8 (as amended). For the text \<open>/** @x *//*:: y */\<close>, after the whole text has been
  scanned from a fresh cursor by \<open>scanTo(18)\<close>, \<open>getTSCommentPositions()\<close> returns a
  single span: it
  opens at offset 9, has its two colons at offset 11, closes at the final \<open>*/\<close>
  (offset 16), and its field \<open>containedInnerOpeningBlockComment\<close> is false, because
  the JSDoc comment opens and closes before the marker comment opens.
\<close>

theorem C8_jsdoc_then_marker_span:
  "map_sum id (\<lambda>(r, cs). getTSCommentPositions cs)
     (scanTo 18 (createTSCommentScanner (js ''/** @x *//*:: y */'') None None None emptyStore))
   = Inr [\<lparr>open = Some 9, colonPos = Some 11, close = Some 16, colonCount = Some 2,
           containedInnerOpeningBlockComment = False\<rparr>]"
  by (simp add: scanner_eval commentScan_jsdoc_marker_example)

text \<open>
  C8 as stated fails: the single span returned for \<open>/** @x *//*:: y */\<close> does not have
  \<open>containedInnerOpeningBlockComment\<close> set.
\<close>

theorem C8_counterexample:
  "\<not> (\<exists>sp. map_sum id (\<lambda>(r, cs). getTSCommentPositions cs)
          (scanTo 18
             (createTSCommentScanner (js ''/** @x *//*:: y */'') None None None emptyStore))
        = Inr [sp]
        \<and> containedInnerOpeningBlockComment sp \<and> close sp = Some 16)"
proof
  assume "\<exists>sp. map_sum id (\<lambda>(r, cs). getTSCommentPositions cs)
          (scanTo 18
             (createTSCommentScanner (js ''/** @x *//*:: y */'') None None None emptyStore))
        = Inr [sp]
        \<and> containedInnerOpeningBlockComment sp \<and> close sp = Some 16"
  then obtain sp where
    sp: "map_sum id (\<lambda>(r, cs). getTSCommentPositions cs)
          (scanTo 18
             (createTSCommentScanner (js ''/** @x *//*:: y */'') None None None emptyStore))
        = Inr [sp]"
    and c: "containedInnerOpeningBlockComment sp"
    by blast
  from sp have "sp = \<lparr>open = Some 9, colonPos = Some 11, close = Some 16, colonCount = Some 2,
           containedInnerOpeningBlockComment = False\<rparr>"
    by (simp add: scanner_eval commentScan_jsdoc_marker_example)
  with c show False by simp
qed

text \<open>
  C5 (the code at the failing input). On the text of two spaces and an \<open>x\<close>, a fresh
  cursor is at position 0; \<open>scanUntilNextSignificantChar(3)\<close> returns false and leaves
  the cursor at position 0, not at the first significant character (offset 2).
\<close>

theorem C5_position_not_advanced:
  "map_sum id (\<lambda>(r, cs). (r, getCurrentPos cs))
     (scanUntilNextSignificantChar 3
        (createTSCommentScanner (js ''  x'') None None None emptyStore))
   = Inr (False, 0)"
  by (simp add: scanner_eval scan_eval)

text \<open>
  C4 (the code at the failing input). A cursor created without a delimiter map, on the
  text \<open>/*:: x */\<close>, is cloned and the clone scans the whole text. The clone's own map
  holds the three delimiters it found; the map of the original, read in the store the
  clone left, is still empty.
\<close>

theorem C4_clone_map_not_shared:
  "map_sum id
     (\<lambda>(r, cs').
        (getBlockCommentDelimiters cs',
         getBlockCommentDelimiters
           (fst (createTSCommentScanner (js ''/*:: x */'') None None None emptyStore),
            snd cs')))
     (scanTo 9 (clone (createTSCommentScanner (js ''/*:: x */'') None None None emptyStore)))
   = Inr ([(0, OpenTsCommentWithoutColons), (2, DoubleColonForOpenTsComment), (7, Close)],
          [])"
  by (simp add: scanner_eval scan_eval)

text \<open>
  C6 (as amended). With a bound strictly before the cursor's position, \<open>scanTo\<close> and
  \<open>scanThroughLeafNode\<close> change nothing and return false. A second call with the
  same bound (the first one having scanned up to it; for a node, \<open>node.pos \<le> node.end\<close>)
  leaves the cursor's position, its mode and the delimiter map as they are, but it
  does not return false: \<open>scanTo\<close> returns whether the mode is \<open>inTSBlockComment\<close>,
  and \<open>scanThroughLeafNode\<close> returns what the first call returned.
\<close>

theorem C6_rescan_is_noop:
  "(bound < scannerPos (fst cs) \<longrightarrow>
      scanTo bound cs = Inr (False, cs)
      \<and> scanThroughLeafNode nodePos bound cs = Inr (False, cs))
   \<and> (scannerPos (fst cs) \<le> bound \<and> scanTo bound cs = Inr (r, cs') \<longrightarrow>
      scanTo bound cs' = Inr (scannerState (fst cs') = InTSBlockComment, cs'))
   \<and> (scannerPos (fst cs) \<le> bound \<and> nodePos \<le> bound
        \<and> scanThroughLeafNode nodePos bound cs = Inr (r, cs') \<longrightarrow>
      scanThroughLeafNode nodePos bound cs' = Inr (r, cs'))"
  using scanTo_passed [of bound cs] scanThroughLeafNode_passed [of bound cs nodePos]
    scanTo_again [of cs bound r cs'] scanThroughLeafNode_again [of cs bound nodePos r cs']
  by blast

text \<open>
  The three hypotheses of C6 met on the text \<open>/*:: x */\<close>: a first \<open>scanTo(5)\<close> from
  a fresh cursor, and the same call again.
\<close>

theorem C6_rescan_is_noop_witness:
  "scanTo 5 (createTSCommentScanner (js ''/*:: x */'') None None None emptyStore)
     = Inr (True,
         \<lparr>scannerText = js ''/*:: x */'', scannerPos = 5, scannerState = InTSBlockComment,
          delimiterPositions = 0, delimiterPositionsParam = None\<rparr>,
         \<lparr>cells = (\<lambda>r. [])(0 := [(0, OpenTsCommentWithoutColons),
                                   (2, DoubleColonForOpenTsComment)]),
          nextRef = 1\<rparr>)
   \<and> scanTo 5
        (\<lparr>scannerText = js ''/*:: x */'', scannerPos = 5, scannerState = InTSBlockComment,
          delimiterPositions = 0, delimiterPositionsParam = None\<rparr>,
         \<lparr>cells = (\<lambda>r. [])(0 := [(0, OpenTsCommentWithoutColons),
                                   (2, DoubleColonForOpenTsComment)]),
          nextRef = 1\<rparr>)
     = Inr (True,
         \<lparr>scannerText = js ''/*:: x */'', scannerPos = 5, scannerState = InTSBlockComment,
          delimiterPositions = 0, delimiterPositionsParam = None\<rparr>,
         \<lparr>cells = (\<lambda>r. [])(0 := [(0, OpenTsCommentWithoutColons),
                                   (2, DoubleColonForOpenTsComment)]),
          nextRef = 1\<rparr>)"
proof -
  let ?cs0 = "createTSCommentScanner (js ''/*:: x */'') None None None emptyStore"
  let ?cs1 = "(\<lparr>scannerText = js ''/*:: x */'', scannerPos = 5, scannerState = InTSBlockComment,
          delimiterPositions = 0, delimiterPositionsParam = None\<rparr>,
         \<lparr>cells = (\<lambda>r. [])(0 := [(0, OpenTsCommentWithoutColons),
                                   (2, DoubleColonForOpenTsComment)]),
          nextRef = 1\<rparr>)"
  have p: "scannerPos (fst ?cs0) \<le> 5"
    by (simp add: createTSCommentScanner_def)
  have h: "scanTo 5 ?cs0 = Inr (True, ?cs1)"
    by (simp add: scanner_eval scan_eval del: add_2_eq_Suc add_2_eq_Suc')
  from C6_rescan_is_noop [of 5 ?cs0 0 True ?cs1] p h
  have "scanTo 5 ?cs1 = Inr (scannerState (fst ?cs1) = InTSBlockComment, ?cs1)"
    by blast
  then have "scanTo 5 ?cs1 = Inr (True, ?cs1)" by simp
  with h show ?thesis by simp
qed

text \<open>
  C6 as stated fails: on the text \<open>/*:: x */\<close>, the second of two calls \<open>scanTo(5)\<close>
  returns true.
\<close>

theorem C6_counterexample:
  "(case scanTo 5 (createTSCommentScanner (js ''/*:: x */'') None None None emptyStore) of
      Inl err \<Rightarrow> False
    | Inr (r, cs) \<Rightarrow> map_sum id fst (scanTo 5 cs) = Inr True)"
  by (simp add: scanner_eval scan_eval)

text \<open>
  C10. After any sequence of calls of the scanning methods on a cursor created with its
  own empty map, every record \<open>getTSCommentPositions()\<close> returns has \<open>open\<close>,
  \<open>colonPos\<close>, \<open>colonCount\<close> and \<open>close\<close> defined, with
  \<open>open < colonPos < close\<close> and a colon count of 1 or 2; and every
  \<open>openTsCommentWithoutColons\<close> in the delimiter map has a single- or double-colon
  event at a strictly later offset, with no other delimiter in between.
\<close>

theorem C10_positions_fully_populated:
  assumes "callScannerAll calls (createTSCommentScanner src None None None emptyStore) = Inr cs"
  shows "(\<forall>sp\<in>set (getTSCommentPositions cs).
            \<exists>opn col cls n. open sp = Some opn \<and> colonPos sp = Some col
              \<and> close sp = Some cls \<and> colonCount sp = Some n
              \<and> opn < col \<and> col < cls \<and> (n = 1 \<or> n = 2))
         \<and> (\<forall>p. (p, OpenTsCommentWithoutColons) \<in> set (getBlockCommentDelimiters cs) \<longrightarrow>
               (\<exists>q t. p < q
                  \<and> (t = SingleColonForOpenTsComment \<or> t = DoubleColonForOpenTsComment)
                  \<and> (q, t) \<in> set (getBlockCommentDelimiters cs)
                  \<and> (\<forall>x\<in>set (getBlockCommentDelimiters cs). \<not> (p < fst x \<and> fst x < q))))"
proof -
  have ok: "cursorOk cs"
    using callScannerAll_ok [OF createTSCommentScanner_ok assms] .
  let ?m = "getBlockCommentDelimiters cs"
  let ?L = "sort_key fst ?m"
  let ?src = "scannerText (fst cs)"
  from cursorOk_sorted [OF ok] have p: "paired ?L" and s: "sorted_wrt (<) (map fst ?L)"
    by simp_all
  have "positionsInv ?L ([], newTsCommentPosition, False)" by simp
  from positionsInv_result [OF positionsInv_fold [OF p s this]]
  have "\<forall>sp\<in>set (getTSCommentPositions cs). populated sp"
    by (simp add: getTSCommentPositions_def getBlockCommentDelimiters_def)
  then have first: "\<forall>sp\<in>set (getTSCommentPositions cs).
            \<exists>opn col cls n. open sp = Some opn \<and> colonPos sp = Some col
              \<and> close sp = Some cls \<and> colonCount sp = Some n
              \<and> opn < col \<and> col < cls \<and> (n = 1 \<or> n = 2)"
    by (simp add: populated_def)
  have second: "\<exists>q t. p < q
                  \<and> (t = SingleColonForOpenTsComment \<or> t = DoubleColonForOpenTsComment)
                  \<and> (q, t) \<in> set ?m \<and> (\<forall>x\<in>set ?m. \<not> (p < fst x \<and> fst x < q))"
    if o: "(p, OpenTsCommentWithoutColons) \<in> set ?m" for p
  proof -
    from ok have at: "\<forall>ev\<in>set ?m. delimiterAt ?src ev"
      by (simp add: cursorOk_def delimitersOk_def)
    from ok o obtain q t where m: "markerAt ?src p q" and t: "isColonDelimiter t"
      and qt: "(q, t) \<in> set ?m"
      unfolding cursorOk_def delimitersOk_def by blast
    from at o have "delimiterAt ?src (p, OpenTsCommentWithoutColons)" by blast
    then have star: "charCodeAt ?src (p + 1) = Some asterisk" by (simp add: delimiterAt_def)
    have "\<not> (p < fst x \<and> fst x < q)" if x: "x \<in> set ?m" for x
    proof
      assume "p < fst x \<and> fst x < q"
      then have "\<not> delimiterAt ?src (fst x, snd x)"
        using no_delimiter_inside_marker [OF m star] by blast
      with at x show False by simp
    qed
    then have n: "\<forall>x\<in>set ?m. \<not> (p < fst x \<and> fst x < q)" by blast
    from m have pq: "p < q" by (simp add: markerAt_def)
    from t have "t = SingleColonForOpenTsComment \<or> t = DoubleColonForOpenTsComment"
      by (simp add: isColonDelimiter_def)
    with pq qt n show ?thesis by blast
  qed
  show ?thesis
  proof (intro conjI allI impI)
    show "\<forall>sp\<in>set (getTSCommentPositions cs).
            \<exists>opn col cls n. open sp = Some opn \<and> colonPos sp = Some col
              \<and> close sp = Some cls \<and> colonCount sp = Some n
              \<and> opn < col \<and> col < cls \<and> (n = 1 \<or> n = 2)"
      by (rule first)
  next
    fix p assume "(p, OpenTsCommentWithoutColons) \<in> set ?m"
    then show "\<exists>q t. p < q
                  \<and> (t = SingleColonForOpenTsComment \<or> t = DoubleColonForOpenTsComment)
                  \<and> (q, t) \<in> set ?m \<and> (\<forall>x\<in>set ?m. \<not> (p < fst x \<and> fst x < q))"
      by (rule second)
  qed
qed

text \<open>
  The hypothesis of C10 met: two calls on a fresh cursor over \<open>/*: number */\<close>, which
  do not raise.
\<close>

theorem C10_positions_fully_populated_witness:
  "callScannerAll [ScanUntilNextSignificantChar 13, ScanTo 13]
     (createTSCommentScanner (js ''/*: number */'') None None None emptyStore)
   = Inr (\<lparr>scannerText = js ''/*: number */'', scannerPos = 13, scannerState = NotInComment,
           delimiterPositions = 0, delimiterPositionsParam = None\<rparr>,
          \<lparr>cells = (\<lambda>r. [])(0 := [(0, OpenTsCommentWithoutColons),
                                    (2, SingleColonForOpenTsComment), (11, Close)]),
           nextRef = 1\<rparr>)
   \<and> list_all
        (\<lambda>sp. \<exists>opn col cls n. open sp = Some opn \<and> colonPos sp = Some col
              \<and> close sp = Some cls \<and> colonCount sp = Some n
              \<and> opn < col \<and> col < cls \<and> (n = 1 \<or> n = 2))
        (getTSCommentPositions
          (\<lparr>scannerText = js ''/*: number */'', scannerPos = 13, scannerState = NotInComment,
            delimiterPositions = 0, delimiterPositionsParam = None\<rparr>,
           \<lparr>cells = (\<lambda>r. [])(0 := [(0, OpenTsCommentWithoutColons),
                                     (2, SingleColonForOpenTsComment), (11, Close)]),
            nextRef = 1\<rparr>))"
proof -
  have h: "callScannerAll [ScanUntilNextSignificantChar 13, ScanTo 13]
     (createTSCommentScanner (js ''/*: number */'') None None None emptyStore)
   = Inr (\<lparr>scannerText = js ''/*: number */'', scannerPos = 13, scannerState = NotInComment,
           delimiterPositions = 0, delimiterPositionsParam = None\<rparr>,
          \<lparr>cells = (\<lambda>r. [])(0 := [(0, OpenTsCommentWithoutColons),
                                    (2, SingleColonForOpenTsComment), (11, Close)]),
           nextRef = 1\<rparr>)"
    by (simp add: scanner_eval scan_eval del: add_2_eq_Suc add_2_eq_Suc')
  from C10_positions_fully_populated [OF h]
  have "\<forall>sp\<in>set (getTSCommentPositions
          (\<lparr>scannerText = js ''/*: number */'', scannerPos = 13, scannerState = NotInComment,
            delimiterPositions = 0, delimiterPositionsParam = None\<rparr>,
           \<lparr>cells = (\<lambda>r. [])(0 := [(0, OpenTsCommentWithoutColons),
                                     (2, SingleColonForOpenTsComment), (11, Close)]),
            nextRef = 1\<rparr>)).
         \<exists>opn col cls n. open sp = Some opn \<and> colonPos sp = Some col
              \<and> close sp = Some cls \<and> colonCount sp = Some n
              \<and> opn < col \<and> col < cls \<and> (n = 1 \<or> n = 2)"
    by (rule conjunct1)
  then have "list_all
        (\<lambda>sp. \<exists>opn col cls n. open sp = Some opn \<and> colonPos sp = Some col
              \<and> close sp = Some cls \<and> colonCount sp = Some n
              \<and> opn < col \<and> col < cls \<and> (n = 1 \<or> n = 2))
        (getTSCommentPositions
          (\<lparr>scannerText = js ''/*: number */'', scannerPos = 13, scannerState = NotInComment,
            delimiterPositions = 0, delimiterPositionsParam = None\<rparr>,
           \<lparr>cells = (\<lambda>r. [])(0 := [(0, OpenTsCommentWithoutColons),
                                     (2, SingleColonForOpenTsComment), (11, Close)]),
            nextRef = 1\<rparr>))"
    unfolding list_all_iff .
  with h show ?thesis by (rule conjI)
qed

section \<open>Properties of \<open>commentScan\<close>\<close>

text \<open>
  C9 (the code at the failing input). On a text that is a shebang line only, scanned
  from 0 to its length, \<open>commentScan\<close> raises: the shebang is skipped to offset 3, and
  \<open>Debug.assertLessThan(3, 3)\<close> fails.
\<close>

theorem C9_shebang_assertion_fails:
  "commentScan (js ''#!a'') 0 3 True = Inl AssertionFailed
   \<and> commentScan (js ''#!a'') 0 3 False = Inl AssertionFailed"
  by (simp add: scan_eval)

section \<open>Properties of the range classifier\<close>




section \<open>Properties of the augmented token scanner\<close>







end
